theory Spec2Isabelle
  imports Main
begin

section \<open>Bytes, strings and errors\<close>

text \<open>
  A Go \<open>string\<close> and a Go \<open>[]byte\<close> are both sequences of bytes; \<open>len\<close> counts bytes.
  Both are modelled as \<open>string\<close> (a list of 8-bit characters). A \<open>byte\<close> is a \<open>char\<close>;
  its numeric value is \<open>of_char\<close>.

  Every \<open>errors.New\<close> of \<open>tkengine.go\<close> is one constructor of \<open>error\<close>. Errors coming
  from the collaborators (versioner, key repositories, alphabet provider, \<open>strconv\<close>,
  the cipher) are values of the same type. A run-time panic (index out of range, integer
  division by zero) is the value \<open>Panic\<close>.
\<close>

datatype error =
    InvalidCC                     \<comment> \<open>"Invalid CC format"\<close>
  | InvalidTK                     \<comment> \<open>"Invalid TK format"\<close>
  | LengthDiffers string string   \<comment> \<open>"middle digits [..] and ciphertext/plaintext [..] length differs"\<close>
  | InvalidSize int               \<comment> \<open>"Invalid CC or TK size: %d"\<close>
  | NoAlphabet nat                \<comment> \<open>"No availlable alphabet for base %d"\<close>
  | TkMDLen nat                   \<comment> \<open>"tk middle digits len is not in interval [2, 8]"\<close>
  | CiphertextLen nat             \<comment> \<open>"ciphertext len is not in interval [3, 9]"\<close>
  | UnknownSymbol char            \<comment> \<open>"Found char in token that does not belong to the alphabet"\<close>
  | NoKey char                    \<comment> \<open>"No key exists for version %v"\<close>
  | AlphabetRetrieval error       \<comment> \<open>"Error while retriving alphabet for base %d: %v", with the
                                      provider's error; the number printed is the length of the
                                      slice returned beside the error, which is not modelled\<close>
  | AlphabetSize nat nat          \<comment> \<open>"Got alphabet size %d for base %d"\<close>
  | AlphabetDuplicates nat        \<comment> \<open>"alphabet for base %d contains duplicated elements"\<close>
  | ParseSyntax                   \<comment> \<open>\<open>strconv.ErrSyntax\<close>\<close>
  | ParseRange                    \<comment> \<open>\<open>strconv.ErrRange\<close>\<close>
  | OtherError string             \<comment> \<open>any other error of a collaborator\<close>
  | Panic

type_synonym AlphabetProvider = "nat \<Rightarrow> error + string"

definition is_digit :: "char \<Rightarrow> bool" where
  \<comment> \<open>the character class \<open>[0-9]\<close>\<close>
  "is_digit c = (48 \<le> (of_char c :: nat) \<and> (of_char c :: nat) \<le> 57)"

definition uint32 :: "int \<Rightarrow> nat" where
  \<comment> \<open>conversion of an integer value to \<open>uint32\<close>: the low 32 bits\<close>
  "uint32 x = nat (x mod 2 ^ 32)"

definition uint64 :: "int \<Rightarrow> nat" where
  "uint64 x = nat (x mod 2 ^ 64)"

definition int32 :: "int \<Rightarrow> int" where
  \<comment> \<open>conversion of an integer value to \<open>int32\<close>: the low 32 bits, read in two's complement\<close>
  "int32 x = (x + 2 ^ 31) mod 2 ^ 32 - 2 ^ 31"

definition quo :: "int \<Rightarrow> int \<Rightarrow> int" where
  \<comment> \<open>Go's \<open>/\<close> on integers: the quotient is truncated towards zero\<close>
  "quo a b = (if (a < 0) = (b < 0) then \<bar>a\<bar> div \<bar>b\<bar> else - (\<bar>a\<bar> div \<bar>b\<bar>))"

definition rem :: "int \<Rightarrow> int \<Rightarrow> int" where
  \<comment> \<open>Go's \<open>%\<close>: the remainder has the sign of the dividend\<close>
  "rem a b = (if a < 0 then - (\<bar>a\<bar> mod \<bar>b\<bar>) else \<bar>a\<bar> mod \<bar>b\<bar>)"

definition string_of_byte :: "char \<Rightarrow> string" where
  \<comment> \<open>The Go conversion \<open>string(b)\<close> of a \<open>byte\<close> \<open>b\<close>. \<open>byte\<close> is \<open>uint8\<close>, and converting an
      integer value to a string type yields the UTF-8 representation of the integer (the
      language specification gives \<open>string(0xf8)\<close> as the two bytes \<open>0xC3 0xB8\<close>). Code points below
      \<open>0x80\<close> are one byte, those from \<open>0x80\<close> to \<open>0xFF\<close> are two bytes. A byte is kept as
      it is only by \<open>string([]byte{b})\<close>, which the source does not use.\<close>
  "string_of_byte b =
     (let r = (of_char b :: nat)
      in if r < 0x80 then [b]
         else [char_of (0xC0 + r div 64), char_of (0x80 + r mod 64)])"

definition slice :: "string \<Rightarrow> nat \<Rightarrow> nat \<Rightarrow> string" where
  \<comment> \<open>\<open>s[lo:hi]\<close>, for \<open>lo \<le> hi \<le> len(s)\<close> (every use below is inside these bounds)\<close>
  "slice s lo hi = take (hi - lo) (drop lo s)"

section \<open>strconv\<close>

fun decimal_value :: "nat \<Rightarrow> string \<Rightarrow> nat" where
  "decimal_value acc [] = acc"
| "decimal_value acc (c # cs) = decimal_value (acc * 10 + (of_char c - 48)) cs"

definition ParseUint :: "string \<Rightarrow> error + nat" where
  \<comment> \<open>\<open>strconv.ParseUint(s, 10, 32)\<close>: no sign, no underscore, digits only, below \<open>2^32\<close>\<close>
  "ParseUint s =
     (if s = [] then Inl ParseSyntax
      else if \<not> list_all is_digit s then Inl ParseSyntax
      else if 2 ^ 32 \<le> decimal_value 0 s then Inl ParseRange
      else Inr (decimal_value 0 s))"

fun Itoa :: "nat \<Rightarrow> string" where
  \<comment> \<open>\<open>strconv.Itoa\<close> on a value that is not negative\<close>
  "Itoa n = (if n < 10 then [char_of (48 + n)]
             else Itoa (n div 10) @ [char_of (48 + n mod 10)])"

declare Itoa.simps [simp del]

section \<open>Base selection and alphabets\<close>

definition base_table :: "nat \<rightharpoonup> nat" where
  "base_table = [3 \<mapsto> 32, 4 \<mapsto> 22, 5 \<mapsto> 18, 6 \<mapsto> 16, 7 \<mapsto> 15, 8 \<mapsto> 14, 9 \<mapsto> 14]"

definition encodingBaseToSaveOneChar :: "int \<Rightarrow> error + nat" where
  "encodingBaseToSaveOneChar s =
     (if s < 3 \<or> s > 9 then Inl (InvalidSize s)
      else Inr (case base_table (uint32 s) of Some b \<Rightarrow> b | None \<Rightarrow> 0))"

definition default_alphabets :: "nat \<rightharpoonup> string" where
  "default_alphabets =
     [14 \<mapsto> ''abcdefghijklmn'',
      15 \<mapsto> ''abcdefghijklmno'',
      16 \<mapsto> ''abcdefghijklmnop'',
      18 \<mapsto> ''abcdefghijklmnopqr'',
      22 \<mapsto> ''abcdefghijklmnopqrstuv'',
      32 \<mapsto> ''abcdefghijklmnopqrstuvwxyz012345'']"

definition DefaultAlphabetProvider :: AlphabetProvider where
  "DefaultAlphabetProvider base =
     (case default_alphabets base of
        None \<Rightarrow> Inl (NoAlphabet base)
      | Some alphabet \<Rightarrow> Inr alphabet)"

fun validate_bases :: "AlphabetProvider \<Rightarrow> nat list \<Rightarrow> error option" where
  "validate_bases ap [] = None"
| "validate_bases ap (i # rest) =
     (case ap i of
        Inl err \<Rightarrow> Some (AlphabetRetrieval err)
      | Inr alpha \<Rightarrow>
          if length alpha \<noteq> i then Some (AlphabetSize (length alpha) i)
          else if length (remdups alpha) \<noteq> length alpha then Some (AlphabetDuplicates i)
          else validate_bases ap rest)"

definition validateAlphabetProvider :: "AlphabetProvider \<Rightarrow> error option" where
  "validateAlphabetProvider ap = validate_bases ap [14, 15, 16, 18, 22, 32]"

section \<open>The base codec\<close>

text \<open>
  \<open>math.Pow(float64(base), float64(k))\<close> is exact whenever the power is below \<open>2^53\<close>.
  The bases come from the table and the exponent is at most the decoded size minus two,
  so the largest power taken is \<open>14^7\<close>; the model writes the power as \<open>base ^ k\<close> and
  then applies the conversion to \<open>int32\<close> or \<open>uint32\<close> of the source.
\<close>

fun build_alphaMap :: "string \<Rightarrow> nat \<Rightarrow> (char \<rightharpoonup> nat) \<Rightarrow> (char \<rightharpoonup> nat)" where
  \<comment> \<open>\<open>for i, el := range alpha { alphaMap[el] = i }\<close>, from index \<open>i\<close> on\<close>
  "build_alphaMap [] i m = m"
| "build_alphaMap (el # rest) i m = build_alphaMap rest (i + 1) (m(el \<mapsto> i))"

fun decode_loop :: "(char \<rightharpoonup> nat) \<Rightarrow> nat \<Rightarrow> string \<Rightarrow> nat \<Rightarrow> error + nat" where
  \<comment> \<open>the loop over the bytes of \<open>tkMD\<close>; \<open>length rest\<close> is \<open>len(tkMD)-1-i\<close>; \<open>n\<close> is a \<open>uint32\<close>\<close>
  "decode_loop alphaMap base [] n = Inr n"
| "decode_loop alphaMap base (b # rest) n =
     (case alphaMap b of
        None \<Rightarrow> Inl (UnknownSymbol b)
      | Some m \<Rightarrow>
          decode_loop alphaMap base rest
            (uint32 (int n + int (uint32 (int (uint32 (int m)) * int (uint32 (int (base ^ length rest))))))))"

definition decodeTkMD :: "string \<Rightarrow> AlphabetProvider \<Rightarrow> error + string" where
  "decodeTkMD tkMD aphaProvider =
     (if length tkMD < 2 \<or> length tkMD > 8 then Inl (TkMDLen (length tkMD))
      else
        let decodeds = length tkMD + 1 in
        case encodingBaseToSaveOneChar (int decodeds) of
          Inl err \<Rightarrow> Inl err
        | Inr base \<Rightarrow>
            (case aphaProvider base of
               Inl err \<Rightarrow> Inl err
             | Inr alpha \<Rightarrow>
                 (case decode_loop (build_alphaMap alpha 0 Map.empty) base tkMD 0 of
                    Inl err \<Rightarrow> Inl err
                  | Inr n \<Rightarrow>
                      let str = Itoa n
                      in Inr (replicate (decodeds - length str) (CHR ''0'') @ str))))"

fun encode_loop :: "nat \<Rightarrow> string \<Rightarrow> nat \<Rightarrow> nat \<Rightarrow> error + string" where
  \<comment> \<open>the loop \<open>for i := 1; i < fsize+1; i++\<close> with \<open>fsize - i + 1\<close> iterations left, so that
      the exponent \<open>fsize - i\<close> is \<open>k\<close>; \<open>n\<close> is a \<open>uint64\<close>\<close>
  "encode_loop base alpha 0 n = Inr []"
| "encode_loop base alpha (Suc k) n =
     (let p = int32 (int (base ^ k)) in
      if p = 0 then Inl Panic
      else
        let m = uint32 (quo (int32 (int n)) p);
            n' = uint64 (rem (int32 (int n)) p)
        in if length alpha \<le> m then Inl Panic
           else (case encode_loop base alpha k n' of
                   Inl err \<Rightarrow> Inl err
                 | Inr s \<Rightarrow> Inr (string_of_byte (alpha ! m) @ s)))"

definition encodeTkMD :: "string \<Rightarrow> AlphabetProvider \<Rightarrow> error + string" where
  "encodeTkMD ciphertext alphaProvider =
     (if length ciphertext < 3 \<or> length ciphertext > 9
      then Inl (CiphertextLen (length ciphertext))
      else
        case ParseUint ciphertext of
          Inl err \<Rightarrow> Inl err
        | Inr n \<Rightarrow>
            (case encodingBaseToSaveOneChar (int (length ciphertext)) of
               Inl err \<Rightarrow> Inl err
             | Inr base \<Rightarrow>
                 (case alphaProvider base of
                    Inl err \<Rightarrow> Inl err
                  | Inr alpha \<Rightarrow> encode_loop base alpha (length ciphertext - 1) n)))"

section \<open>Input validation\<close>

definition isValidCC :: "string \<Rightarrow> bool" where
  \<comment> \<open>the regular expression \<open>^[0-9]{13,19}$\<close> matched against the whole input\<close>
  "isValidCC cc = (13 \<le> length cc \<and> length cc \<le> 19 \<and> list_all is_digit cc)"

text \<open>
  A \<open>range\<close> loop over a Go string yields runes: the string is decoded as UTF-8, and a
  byte that does not start a well-formed sequence yields the rune \<open>0xFFFD\<close> and advances
  by one byte. \<open>decode_rune\<close> returns the rune at the front of the bytes and its width.
\<close>

definition rune_size :: "nat \<Rightarrow> nat" where
  \<comment> \<open>width announced by the first byte; 0 for a byte that cannot start a sequence\<close>
  "rune_size b0 =
     (if b0 < 0x80 then 1
      else if 0xC2 \<le> b0 \<and> b0 \<le> 0xDF then 2
      else if 0xE0 \<le> b0 \<and> b0 \<le> 0xEF then 3
      else if 0xF0 \<le> b0 \<and> b0 \<le> 0xF4 then 4
      else 0)"

definition accept_lo :: "nat \<Rightarrow> nat" where
  "accept_lo b0 = (if b0 = 0xE0 then 0xA0 else if b0 = 0xF0 then 0x90 else 0x80)"

definition accept_hi :: "nat \<Rightarrow> nat" where
  "accept_hi b0 = (if b0 = 0xED then 0x9F else if b0 = 0xF4 then 0x8F else 0xBF)"

definition decode_rune :: "nat \<Rightarrow> nat list \<Rightarrow> nat \<times> nat" where
  "decode_rune b0 rest =
     (let sz = rune_size b0 in
      if sz = 1 then (b0, 1)
      else if sz = 0 \<or> Suc (length rest) < sz then (0xFFFD, 1)
      else
        let b1 = rest ! 0 in
        if b1 < accept_lo b0 \<or> accept_hi b0 < b1 then (0xFFFD, 1)
        else if sz = 2 then ((b0 mod 32) * 64 + b1 mod 64, 2)
        else
          let b2 = rest ! 1 in
          if b2 < 0x80 \<or> 0xBF < b2 then (0xFFFD, 1)
          else if sz = 3 then ((b0 mod 16) * 4096 + (b1 mod 64) * 64 + b2 mod 64, 3)
          else
            let b3 = rest ! 2 in
            if b3 < 0x80 \<or> 0xBF < b3 then (0xFFFD, 1)
            else ((b0 mod 8) * 262144 + (b1 mod 64) * 4096 + (b2 mod 64) * 64 + b3 mod 64, 4))"

function runes :: "string \<Rightarrow> nat list" where
  "runes [] = []"
| "runes (c # cs) =
     (case decode_rune (of_char c) (map of_char cs) of
        (r, w) \<Rightarrow> r # runes (drop (w - 1) cs))"
  by pat_completeness auto
termination
  by (relation "measure length") auto

definition IsDigit :: "(nat \<Rightarrow> bool) \<Rightarrow> nat \<Rightarrow> bool" where
  \<comment> \<open>\<open>unicode.IsDigit\<close>: up to \<open>MaxLatin1\<close> the digits are \<open>'0'\<close> to \<open>'9'\<close>; above, the
      range table of the decimal digits \<open>Nd\<close> of the Go library decides, here \<open>nd\<close>\<close>
  "IsDigit nd r = (if r \<le> 0xFF then 48 \<le> r \<and> r \<le> 57 else nd r)"

fun contains :: "string \<Rightarrow> char \<Rightarrow> bool" where
  "contains [] v = False"
| "contains (el # s) v = (if v = el then True else contains s v)"

definition isValidTK :: "(nat \<Rightarrow> bool) \<Rightarrow> string \<Rightarrow> AlphabetProvider \<Rightarrow> string \<Rightarrow> bool" where
  "isValidTK nd tk alphaProvider vers =
     (if length tk < 13 \<or> length tk > 19 then False
      else if \<not> list_all (IsDigit nd) (runes (slice tk 0 6)) then False
      else if \<not> list_all (IsDigit nd) (runes (slice tk (length tk - 4) (length tk))) then False
      else
        case encodingBaseToSaveOneChar (int (length tk) - 10) of
          Inl err \<Rightarrow> False
        | Inr base \<Rightarrow>
            (case alphaProvider base of
               Inl err \<Rightarrow> False
             | Inr alpha \<Rightarrow>
                 let alphaMap = build_alphaMap alpha 0 Map.empty;
                     middle = slice tk 7 (length tk - 4)
                 in if \<not> list_all (\<lambda>el. alphaMap (char_of (el mod 256)) \<noteq> None) (runes middle)
                    then False
                    else if \<not> contains vers (tk ! 6) then False
                    else True))"

section \<open>Providers and the engine\<close>

record KeyVersioner =
  GetTokenizationVersion :: "error + char"
  GetDetokenizationVersions :: "error + string"

type_synonym KeyRepo = "char \<Rightarrow> error + string"

record engine =
  versioner :: KeyVersioner
  encryptionKeys :: KeyRepo
  hmacKeys :: KeyRepo
  alphaProvider :: AlphabetProvider

text \<open>
  The packages the engine imports and this repository does not contain: the keyed hash
  (\<open>crypto/hmac\<close> over \<open>crypto/sha256\<close>), the format-preserving cipher
  (\<open>github.com/capitalone/fpe/ff1\<close>) and the digit table of \<open>unicode\<close>. They are
  parameters of the model. \<open>hmac_sha256 key msg\<close> stands for
  \<open>h := hmac.New(sha256.New, key); h.Write(msg); h.Sum(nil)\<close>.
\<close>

record 'c library =
  hmac_sha256 :: "string \<Rightarrow> string \<Rightarrow> string"
  ff1_NewCipher :: "nat \<Rightarrow> nat \<Rightarrow> string \<Rightarrow> string \<Rightarrow> error + 'c"
  ff1_Encrypt :: "'c \<Rightarrow> string \<Rightarrow> error + string"
  ff1_Decrypt :: "'c \<Rightarrow> string \<Rightarrow> error + string"
  unicode_Nd :: "nat \<Rightarrow> bool"

definition keyRepo_GetKey :: "(char \<rightharpoonup> string) \<Rightarrow> KeyRepo" where
  "keyRepo_GetKey keys v = (case keys v of None \<Rightarrow> Inl (NoKey v) | Some key \<Rightarrow> Inr key)"

definition NewEngine :: "KeyVersioner \<Rightarrow> KeyRepo \<Rightarrow> KeyRepo \<Rightarrow> AlphabetProvider \<Rightarrow> error + engine" where
  "NewEngine vr eKeys hKeys ap =
     (case validateAlphabetProvider ap of
        Some err \<Rightarrow> Inl err
      | None \<Rightarrow> Inr \<lparr>versioner = vr, encryptionKeys = eKeys, hmacKeys = hKeys, alphaProvider = ap\<rparr>)"

definition NewEngineWithDefaultAlphabet :: "KeyVersioner \<Rightarrow> KeyRepo \<Rightarrow> KeyRepo \<Rightarrow> engine" where
  "NewEngineWithDefaultAlphabet vr eKeys hKeys =
     \<lparr>versioner = vr, encryptionKeys = eKeys, hmacKeys = hKeys,
      alphaProvider = DefaultAlphabetProvider\<rparr>"

section \<open>Tokenization and detokenization\<close>

definition make_bytes :: "nat \<Rightarrow> string" where
  \<comment> \<open>\<open>make([]byte, n)\<close>: a slice of length \<open>n\<close>, every byte zero\<close>
  "make_bytes n = replicate n (CHR 0x00)"

definition copy_bytes :: "string \<Rightarrow> string \<Rightarrow> string" where
  \<comment> \<open>\<open>copy(dst, src)\<close>: the first \<open>min(len(dst), len(src))\<close> bytes of \<open>dst\<close> are overwritten\<close>
  "copy_bytes dst src =
     take (min (length dst) (length src)) src @ drop (min (length dst) (length src)) dst"

definition sixByFour_cc :: "string \<Rightarrow> string" where
  \<comment> \<open>lines 196 to 199 of \<open>EncryptCC\<close>; \<open>append\<close> adds after the ten bytes already there\<close>
  "sixByFour_cc ccBytes =
     (let sixByFour = make_bytes 10;
          sixByFour = copy_bytes sixByFour (slice ccBytes 0 6)
      in sixByFour @ slice ccBytes (length ccBytes - 4) (length ccBytes))"

definition sixByFour_tk :: "string \<Rightarrow> string" where
  \<comment> \<open>lines 283 to 286 of \<open>DecryptTK\<close>\<close>
  "sixByFour_tk tkBytes =
     (let sixByFour = make_bytes 10;
          sixByFour = copy_bytes sixByFour (slice tkBytes 0 6)
      in sixByFour @ slice tkBytes (length tkBytes - 4) (length tkBytes))"

definition EncryptCC :: "'c library \<Rightarrow> engine \<Rightarrow> string \<Rightarrow> error + string" where
  "EncryptCC L e cc =
     (if \<not> isValidCC cc then Inl InvalidCC
      else
        let sixByFour = sixByFour_cc cc;
            md = slice cc 6 (length cc - 4)
        in case GetTokenizationVersion (versioner e) of
             Inl err \<Rightarrow> Inl err
           | Inr v \<Rightarrow>
        (case encryptionKeys e v of
             Inl err \<Rightarrow> Inl err
           | Inr ekey \<Rightarrow>
        (case hmacKeys e v of
             Inl err \<Rightarrow> Inl err
           | Inr hkey \<Rightarrow>
        (let tweak = hmac_sha256 L hkey sixByFour
         in case ff1_NewCipher L 10 (length tweak) ekey tweak of
             Inl err \<Rightarrow> Inl err
           | Inr cipher \<Rightarrow>
        (case ff1_Encrypt L cipher md of
             Inl err \<Rightarrow> Inl err
           | Inr ciphertext \<Rightarrow>
        (if length md \<noteq> length ciphertext then Inl (LengthDiffers md ciphertext)
         else case encodeTkMD ciphertext (alphaProvider e) of
             Inl err \<Rightarrow> Inl err
           | Inr tkmd \<Rightarrow>
               Inr (slice cc 0 6 @ string_of_byte v @ tkmd
                    @ slice cc (length cc - 4) (length cc))))))))"

definition DecryptTK :: "'c library \<Rightarrow> engine \<Rightarrow> string \<Rightarrow> error + string" where
  "DecryptTK L e tk =
     (case GetDetokenizationVersions (versioner e) of
        Inl err \<Rightarrow> Inl err
      | Inr detokVers \<Rightarrow>
     (if \<not> isValidTK (unicode_Nd L) tk (alphaProvider e) detokVers then Inl InvalidTK
      else
        let sixByFour = sixByFour_tk tk;
            v = tk ! 6
        in case encryptionKeys e v of
             Inl err \<Rightarrow> Inl err
           | Inr ekey \<Rightarrow>
        (case hmacKeys e v of
             Inl err \<Rightarrow> Inl err
           | Inr hkey \<Rightarrow>
        (let md = slice tk 6 (length tk - 4);
             tweak = hmac_sha256 L hkey sixByFour
         in case decodeTkMD (slice md 1 (length md)) (alphaProvider e) of
             Inl err \<Rightarrow> Inl err
           | Inr decmd \<Rightarrow>
        (case ff1_NewCipher L 10 (length tweak) ekey tweak of
             Inl err \<Rightarrow> Inl err
           | Inr cipher \<Rightarrow>
        (case ff1_Decrypt L cipher decmd of
             Inl err \<Rightarrow> Inl err
           | Inr plaintext \<Rightarrow>
        (if length md \<noteq> length plaintext then Inl (LengthDiffers md plaintext)
         else Inr (slice tk 0 6 @ plaintext @ slice tk (length tk - 4) (length tk)))))))))"

section \<open>Conditions on an alphabet provider\<close>

definition is_ascii :: "char \<Rightarrow> bool" where
  \<comment> \<open>a byte whose conversion \<open>string(b)\<close> is the byte alone\<close>
  "is_ascii b = ((of_char b :: nat) < 0x80)"

definition ascii_alphabets :: "AlphabetProvider \<Rightarrow> bool" where
  \<comment> \<open>every symbol of every alphabet the codec asks for is below \<open>0x80\<close>\<close>
  "ascii_alphabets ap =
     list_all (\<lambda>i. case ap i of Inl err \<Rightarrow> True | Inr alpha \<Rightarrow> list_all is_ascii alpha)
       [14, 15, 16, 18, 22, 32]"

definition symbols_valid :: "AlphabetProvider \<Rightarrow> string \<Rightarrow> bool" where
  \<comment> \<open>every character of \<open>t\<close> belongs to the alphabet selected for the length of \<open>t\<close>\<close>
  "symbols_valid ap t =
     (case encodingBaseToSaveOneChar (int (length t + 1)) of
        Inl err \<Rightarrow> False
      | Inr base \<Rightarrow>
          (case ap base of
             Inl err \<Rightarrow> False
           | Inr alpha \<Rightarrow> list_all (\<lambda>c. c \<in> set alpha) t))"

section \<open>Collaborators used to run the engine\<close>

text \<open>
  \<open>deterministicVersioner\<close> and \<open>fixedKeyRepo\<close> are the providers of
  \<open>tkengine_test.go\<close>. \<open>stand_in\<close> supplies the imported packages with simple functions
  so that the engine can be run on concrete inputs: the keyed hash is the key followed by
  the message, the cipher needs a key of 16, 24 or 32 bytes and reverses a digit string
  (length-preserving, and decryption undoes encryption for any key and tweak), and the
  digit table above Latin-1 holds the Arabic-Indic digits only.
\<close>

definition deterministicVersioner :: "bool \<Rightarrow> bool \<Rightarrow> char \<Rightarrow> string \<Rightarrow> KeyVersioner" where
  "deterministicVersioner tokError detokError tokVersion detokVersions =
     \<lparr>GetTokenizationVersion =
        (if tokError then Inl (OtherError ''no available version'') else Inr tokVersion),
      GetDetokenizationVersions =
        (if detokError then Inl (OtherError ''no available versions'') else Inr detokVersions)\<rparr>"

definition fixedKeyRepo :: "bool \<Rightarrow> string \<Rightarrow> KeyRepo" where
  "fixedKeyRepo err key v =
     (if err then Inl (OtherError ''version does not exist'') else Inr key)"

definition stand_in :: "unit library" where
  "stand_in =
     \<lparr>hmac_sha256 = (\<lambda>key msg. key @ msg),
      ff1_NewCipher = (\<lambda>radix tweakLen key tweak.
         if length key = 16 \<or> length key = 24 \<or> length key = 32 then Inr ()
         else Inl (OtherError ''key length must be 128, 192, or 256 bits'')),
      ff1_Encrypt = (\<lambda>cipher X. if list_all is_digit X then Inr (rev X)
                                  else Inl (OtherError ''not a radix-10 string'')),
      ff1_Decrypt = (\<lambda>cipher X. if list_all is_digit X then Inr (rev X)
                                  else Inl (OtherError ''not a radix-10 string'')),
      unicode_Nd = (\<lambda>r. 0x660 \<le> r \<and> r \<le> 0x669)\<rparr>"

definition zero_key :: string where
  "zero_key = replicate 16 (CHR 0x00)"

definition nominal_engine :: engine where
  \<comment> \<open>the engine of the test case \<open>nominal_tokenization\<close>\<close>
  "nominal_engine =
     \<lparr>versioner = deterministicVersioner False False (CHR ''a'') ''abcd'',
      encryptionKeys = fixedKeyRepo False zero_key,
      hmacKeys = fixedKeyRepo False zero_key,
      alphaProvider = DefaultAlphabetProvider\<rparr>"

definition high_version_engine :: engine where
  \<comment> \<open>the same engine with the version byte \<open>0xC8\<close>, allowed for detokenization\<close>
  "high_version_engine =
     \<lparr>versioner = deterministicVersioner False False (CHR 0xC8) [CHR 0xC8],
      encryptionKeys = fixedKeyRepo False zero_key,
      hmacKeys = fixedKeyRepo False zero_key,
      alphaProvider = DefaultAlphabetProvider\<rparr>"

definition high_version_token :: string where
  \<comment> \<open>\<open>"444433"\<close>, the two bytes of \<open>string(byte(0xC8))\<close>, \<open>"dgebj"\<close>, \<open>"1111"\<close>\<close>
  "high_version_token = ''444433'' @ [CHR 0xC3, CHR 0x88] @ ''dgebj'' @ ''1111''"

section \<open>Base selection\<close>

lemma encodingBase_values:
  "encodingBaseToSaveOneChar 3 = Inr 32"
  "encodingBaseToSaveOneChar 4 = Inr 22"
  "encodingBaseToSaveOneChar 5 = Inr 18"
  "encodingBaseToSaveOneChar 6 = Inr 16"
  "encodingBaseToSaveOneChar 7 = Inr 15"
  "encodingBaseToSaveOneChar 8 = Inr 14"
  "encodingBaseToSaveOneChar 9 = Inr 14"
  by (simp_all add: encodingBaseToSaveOneChar_def base_table_def uint32_def)

lemmas codec_eval =
  encodeTkMD_def decodeTkMD_def ParseUint_def is_digit_def encodingBase_values
  DefaultAlphabetProvider_def default_alphabets_def int32_def quo_def rem_def
  uint32_def uint64_def string_of_byte_def Itoa.simps char_of_eq_iff

text \<open>
  Claim C10. \<open>encodingBaseToSaveOneChar\<close> returns the bases 32, 22, 18, 16, 15, 14, 14 for
  the sizes 3 to 9; for every size \<open>s\<close> from 3 to 9 the base \<open>b\<close> it returns satisfies
  \<open>b^(s-1) > 10^s - 1\<close> over the integers; for every other size it returns the error
  "Invalid CC or TK size".
\<close>

theorem encodingBaseToSaveOneChar_table:
  "encodingBaseToSaveOneChar 3 = Inr 32 \<and>
   encodingBaseToSaveOneChar 4 = Inr 22 \<and>
   encodingBaseToSaveOneChar 5 = Inr 18 \<and>
   encodingBaseToSaveOneChar 6 = Inr 16 \<and>
   encodingBaseToSaveOneChar 7 = Inr 15 \<and>
   encodingBaseToSaveOneChar 8 = Inr 14 \<and>
   encodingBaseToSaveOneChar 9 = Inr 14 \<and>
   (3 \<le> s \<and> s \<le> 9 \<longrightarrow>
      (\<exists>b. encodingBaseToSaveOneChar s = Inr b \<and> 10 ^ nat s - 1 < int b ^ (nat s - 1))) \<and>
   (s < 3 \<or> 9 < s \<longrightarrow> encodingBaseToSaveOneChar s = Inl (InvalidSize s))"
proof -
  have in_range: "\<exists>b. encodingBaseToSaveOneChar s = Inr b \<and> 10 ^ nat s - 1 < int b ^ (nat s - 1)"
    if "3 \<le> s" "s \<le> 9"
  proof -
    from that consider "s = 3" | "s = 4" | "s = 5" | "s = 6" | "s = 7" | "s = 8" | "s = 9"
      by linarith
    then show ?thesis
      by cases (simp_all add: encodingBase_values)
  qed
  have out_of_range: "encodingBaseToSaveOneChar s = Inl (InvalidSize s)" if "s < 3 \<or> 9 < s"
    using that by (auto simp: encodingBaseToSaveOneChar_def)
  show ?thesis
    using in_range out_of_range by (simp add: encodingBase_values)
qed

theorem encodingBaseToSaveOneChar_table_witness:
  "(3 \<le> (5::int) \<and> (5::int) \<le> 9) \<and> encodingBaseToSaveOneChar 5 = Inr 18 \<and>
   (10::int) ^ 5 - 1 < 18 ^ 4 \<and>
   ((10::int) < 3 \<or> 9 < (10::int)) \<and> encodingBaseToSaveOneChar 10 = Inl (InvalidSize 10)"
  using encodingBaseToSaveOneChar_table [of 5] encodingBaseToSaveOneChar_table [of 10]
  by simp

section \<open>The codec on the literal cases\<close>

text \<open>
  Claim C9. With the default alphabet provider, \<open>encodeTkMD\<close> maps "000" to "aa", "001"
  to "ab", "352" to "la" and "00001" to "aaab", and \<open>decodeTkMD\<close> maps each of these
  results back.
\<close>

theorem codec_literal_cases:
  "encodeTkMD ''000'' DefaultAlphabetProvider = Inr ''aa'' \<and>
   encodeTkMD ''001'' DefaultAlphabetProvider = Inr ''ab'' \<and>
   encodeTkMD ''352'' DefaultAlphabetProvider = Inr ''la'' \<and>
   encodeTkMD ''00001'' DefaultAlphabetProvider = Inr ''aaab'' \<and>
   decodeTkMD ''aa'' DefaultAlphabetProvider = Inr ''000'' \<and>
   decodeTkMD ''ab'' DefaultAlphabetProvider = Inr ''001'' \<and>
   decodeTkMD ''la'' DefaultAlphabetProvider = Inr ''352'' \<and>
   decodeTkMD ''aaab'' DefaultAlphabetProvider = Inr ''00001''"
  by (simp add: codec_eval)

section \<open>Arithmetic, alphabets and the two loops of the codec\<close>

subsection \<open>Machine arithmetic inside its range\<close>

lemma int32_id: "0 \<le> x \<Longrightarrow> x < 2 ^ 31 \<Longrightarrow> int32 x = x"
  by (simp add: int32_def)

lemma quo_nat: "quo (int a) (int b) = int (a div b)"
  by (simp add: quo_def zdiv_int)

lemma rem_nat: "rem (int a) (int b) = int (a mod b)"
  by (simp add: rem_def zmod_int)

lemma uint32_nat: "n < 2 ^ 32 \<Longrightarrow> uint32 (int n) = n"
  by (simp add: uint32_def)

lemma uint64_nat: "n < 2 ^ 64 \<Longrightarrow> uint64 (int n) = n"
  by (simp add: uint64_def)

lemma encode_step:
  assumes p: "0 < p" "p < 2 ^ 31" and n: "n < 2 ^ 31"
  shows "int32 (int p) = int p"
    and "uint32 (quo (int32 (int n)) (int p)) = n div p"
    and "uint64 (rem (int32 (int n)) (int p)) = n mod p"
proof -
  show "int32 (int p) = int p" using p by (simp add: int32_id)
  have n32: "int32 (int n) = int n" using n by (simp add: int32_id)
  have big: "n < 2 ^ 32" "n < 2 ^ 64" using n by simp_all
  have "n div p < 2 ^ 32"
    by (rule le_less_trans [OF div_le_dividend big(1)])
  then show "uint32 (quo (int32 (int n)) (int p)) = n div p"
    by (simp add: n32 quo_nat uint32_nat)
  have "n mod p < 2 ^ 64"
    by (rule le_less_trans [OF mod_less_eq_dividend big(2)])
  then show "uint64 (rem (int32 (int n)) (int p)) = n mod p"
    by (simp add: n32 rem_nat uint64_nat)
qed

lemma decode_step:
  assumes "acc + m * q < 2 ^ 32" and "0 < q"
  shows "uint32 (int acc + int (uint32 (int (uint32 (int m)) * int (uint32 (int q))))) = acc + m * q"
proof (cases "m = 0")
  case True
  then show ?thesis using assms by (simp add: uint32_nat uint32_def)
next
  case False
  have mq: "m * q < 2 ^ 32"
    by (rule le_less_trans [OF le_add2 assms(1)])
  have "q \<le> m * q" using False by simp
  then have q: "q < 2 ^ 32" by (rule le_less_trans [OF _ mq])
  have "m \<le> m * q" using assms(2) by simp
  then have m: "m < 2 ^ 32" by (rule le_less_trans [OF _ mq])
  have "uint32 (int (uint32 (int m)) * int (uint32 (int q))) = m * q"
    using uint32_nat [OF mq] by (simp add: uint32_nat [OF m] uint32_nat [OF q])
  then show ?thesis
    using uint32_nat [OF assms(1)] by simp
qed


subsection \<open>The symbol-to-index map\<close>

lemma build_alphaMap_notin:
  "c \<notin> set alpha \<Longrightarrow> build_alphaMap alpha i m c = m c"
  by (induction alpha arbitrary: i m) auto

lemma build_alphaMap_nth:
  "distinct alpha \<Longrightarrow> j < length alpha \<Longrightarrow> build_alphaMap alpha i m (alpha ! j) = Some (i + j)"
proof (induction alpha arbitrary: i m j)
  case Nil
  then show ?case by simp
next
  case (Cons el rest)
  show ?case
  proof (cases j)
    case 0
    with Cons.prems show ?thesis by (simp add: build_alphaMap_notin)
  next
    case (Suc j')
    with Cons.prems have "build_alphaMap rest (i + 1) (m(el \<mapsto> i)) (rest ! j') = Some (i + 1 + j')"
      by (intro Cons.IH) simp_all
    with Suc show ?thesis by simp
  qed
qed

lemma build_alphaMap_Some:
  "build_alphaMap alpha i m c = Some j \<Longrightarrow>
     m c = Some j \<or> (i \<le> j \<and> j - i < length alpha \<and> alpha ! (j - i) = c)"
proof (induction alpha arbitrary: i m)
  case Nil
  then show ?case by simp
next
  case (Cons el rest)
  from Cons.prems have "build_alphaMap rest (i + 1) (m(el \<mapsto> i)) c = Some j" by simp
  from Cons.IH [OF this]
  consider "(m(el \<mapsto> i)) c = Some j"
    | "i + 1 \<le> j" "j - (i + 1) < length rest" "rest ! (j - (i + 1)) = c"
    by blast
  then show ?case
  proof cases
    case 1
    then show ?thesis by (cases "c = el") auto
  next
    case 2
    then have "j - i = Suc (j - (i + 1))" by simp
    with 2 show ?thesis by simp
  qed
qed

lemma build_alphaMap_in:
  "c \<in> set alpha \<Longrightarrow> build_alphaMap alpha i m c \<noteq> None"
proof (induction alpha arbitrary: i m)
  case Nil
  then show ?case by simp
next
  case (Cons el rest)
  show ?case
  proof (cases "c \<in> set rest")
    case True
    then show ?thesis using Cons.IH by simp
  next
    case False
    with Cons.prems have "c = el" by simp
    with False show ?thesis by (simp add: build_alphaMap_notin)
  qed
qed

lemma alphaMap_lookup:
  assumes "c \<in> set alpha"
  obtains j where "build_alphaMap alpha 0 Map.empty c = Some j" "j < length alpha" "alpha ! j = c"
proof -
  from build_alphaMap_in [OF assms] obtain j
    where j: "build_alphaMap alpha 0 Map.empty c = Some j" by blast
  from build_alphaMap_Some [OF j] have "j < length alpha" "alpha ! j = c" by simp_all
  with j that show thesis by blast
qed

subsection \<open>One iteration of each loop\<close>

lemma encode_loop_Suc:
  assumes "0 < base ^ k" "base ^ k < 2 ^ 31" "n < 2 ^ 31"
  shows "encode_loop base alpha (Suc k) n =
           (if length alpha \<le> n div base ^ k then Inl Panic
            else case encode_loop base alpha k (n mod base ^ k) of
                   Inl err \<Rightarrow> Inl err
                 | Inr s \<Rightarrow> Inr (string_of_byte (alpha ! (n div base ^ k)) @ s))"
proof -
  have p: "int32 (int (base ^ k)) = int (base ^ k)"
    by (rule encode_step(1) [OF assms])
  have nz: "(int (base ^ k) = 0) = False"
    using assms(1) by simp
  show ?thesis
    by (simp only: encode_loop.simps Let_def p nz if_False encode_step(2,3) [OF assms])
qed

lemma decode_loop_Cons:
  assumes "alphaMap b = Some m" "acc + m * base ^ length rest < 2 ^ 32" "0 < base ^ length rest"
  shows "decode_loop alphaMap base (b # rest) acc
           = decode_loop alphaMap base rest (acc + m * base ^ length rest)"
  by (simp only: decode_loop.simps assms(1) option.case decode_step [OF assms(2,3)])

subsection \<open>The two loops undo each other\<close>

lemma string_of_byte_ascii: "is_ascii b \<Longrightarrow> string_of_byte b = [b]"
  by (simp add: string_of_byte_def is_ascii_def)

lemma encode_then_decode_loop:
  assumes alpha: "distinct alpha" "length alpha = base"
    and ascii: "list_all is_ascii alpha"
    and small: "base ^ k < 2 ^ 31" "n < base ^ k" "acc + n < 2 ^ 32"
  shows "\<exists>t. encode_loop base alpha k n = Inr t \<and> length t = k \<and> set t \<subseteq> set alpha \<and>
             decode_loop (build_alphaMap alpha 0 Map.empty) base t acc = Inr (acc + n)"
  using small
proof (induction k arbitrary: n acc)
  case 0
  then show ?case by simp
next
  case (Suc k)
  let ?p = "base ^ k"
  let ?m = "n div ?p"
  from Suc.prems(2) have base_pos: "0 < base" by (cases base) simp_all
  then have p_pos: "0 < ?p" by simp
  have "?p \<le> base ^ Suc k" using base_pos by simp
  then have p_small: "?p < 2 ^ 31" using Suc.prems(1) by (rule le_less_trans)
  from Suc.prems(2,1) have n_small: "n < 2 ^ 31" by (rule less_trans)
  have m_lt: "?m < base"
    using Suc.prems(2) p_pos by (simp add: less_mult_imp_div_less mult.commute)
  have rest_lt: "n mod ?p < ?p" using p_pos by simp
  have split_n: "?m * ?p + n mod ?p = n" by (rule div_mult_mod_eq)
  then have "(acc + ?m * ?p) + n mod ?p = acc + n" by simp
  with Suc.prems(3) have acc': "(acc + ?m * ?p) + n mod ?p < 2 ^ 32" by simp
  from Suc.IH [OF p_small rest_lt acc'] obtain t
    where t: "encode_loop base alpha k (n mod ?p) = Inr t" "length t = k" "set t \<subseteq> set alpha"
      "decode_loop (build_alphaMap alpha 0 Map.empty) base t (acc + ?m * ?p)
         = Inr (acc + ?m * ?p + n mod ?p)"
    by blast
  have sym: "alpha ! ?m \<in> set alpha" using m_lt alpha(2) by simp
  with ascii have one: "string_of_byte (alpha ! ?m) = [alpha ! ?m]"
    by (simp add: string_of_byte_ascii list_all_iff)
  have enc: "encode_loop base alpha (Suc k) n = Inr (alpha ! ?m # t)"
    using m_lt alpha(2) t(1) one
    by (simp add: encode_loop_Suc [OF p_pos p_small n_small] del: encode_loop.simps)
  have look: "build_alphaMap alpha 0 Map.empty (alpha ! ?m) = Some ?m"
    using build_alphaMap_nth [OF alpha(1), of ?m 0 Map.empty] m_lt alpha(2) by simp
  have "acc + ?m * base ^ length t < 2 ^ 32"
    unfolding t(2) by (rule le_less_trans [OF le_add1 acc'])
  from decode_loop_Cons [where alphaMap = "build_alphaMap alpha 0 Map.empty" and b = "alpha ! ?m",
      OF look this] p_pos
  have dec: "decode_loop (build_alphaMap alpha 0 Map.empty) base (alpha ! ?m # t) acc
               = Inr (acc + n)"
    using t(2,4) split_n by (simp add: add.assoc del: decode_loop.simps)
  from enc dec t(2,3) sym show ?case by simp
qed

lemma decode_then_encode_loop:
  assumes alpha: "length alpha = base"
    and ascii: "list_all is_ascii alpha"
    and t: "set t \<subseteq> set alpha"
    and small: "base ^ length t < 2 ^ 31" "acc + base ^ length t \<le> 2 ^ 32" 
  shows "\<exists>v. decode_loop (build_alphaMap alpha 0 Map.empty) base t acc = Inr (acc + v) \<and>
             v < base ^ length t \<and> encode_loop base alpha (length t) v = Inr t"
  using t small
proof (induction t arbitrary: acc)
  case Nil
  then show ?case by simp
next
  case (Cons c t)
  let ?p = "base ^ length t"
  from Cons.prems(1) obtain m
    where m: "build_alphaMap alpha 0 Map.empty c = Some m" "m < length alpha" "alpha ! m = c"
    by (auto elim: alphaMap_lookup)
  from m(2) alpha have m_lt: "m < base" by simp
  then have base_pos: "0 < base" by simp
  then have p_pos: "0 < ?p" by simp
  have "?p \<le> base ^ length (c # t)" using base_pos by simp
  then have p_small: "?p < 2 ^ 31" using Cons.prems(2) by (rule le_less_trans)
  have "Suc m * ?p \<le> base * ?p" using m_lt by (intro mult_le_mono1) simp
  then have step: "m * ?p + ?p \<le> base ^ length (c # t)" by simp
  with Cons.prems(3) have acc': "(acc + m * ?p) + ?p \<le> 2 ^ 32" by simp
  from Cons.prems(1) have "set t \<subseteq> set alpha" by simp
  from Cons.IH [OF this p_small acc'] obtain v
    where v: "decode_loop (build_alphaMap alpha 0 Map.empty) base t (acc + m * ?p)
                = Inr (acc + m * ?p + v)"
      "v < ?p" "encode_loop base alpha (length t) v = Inr t"
    by blast
  let ?n = "m * ?p + v"
  have n_lt: "?n < base ^ length (c # t)" using step v(2) by linarith
  then have n_small: "?n < 2 ^ 31" using Cons.prems(2) by (rule less_trans)
  have "acc + m * ?p < 2 ^ 32" using acc' p_pos by linarith
  from decode_loop_Cons [where alphaMap = "build_alphaMap alpha 0 Map.empty" and b = c,
      OF m(1) this p_pos]
  have dec: "decode_loop (build_alphaMap alpha 0 Map.empty) base (c # t) acc = Inr (acc + ?n)"
    using v(1) by (simp add: add.assoc del: decode_loop.simps)
  have dm: "?n div ?p = m" "?n mod ?p = v" using v(2) p_pos by simp_all
  from ascii m(2,3) have one: "string_of_byte c = [c]"
    by (auto simp: string_of_byte_ascii list_all_iff)
  have enc: "encode_loop base alpha (length (c # t)) ?n = Inr (c # t)"
    using m(2,3) v(3) one dm
    by (simp add: encode_loop_Suc [OF p_pos p_small n_small] del: encode_loop.simps)
  from dec n_lt enc show ?case by blast
qed



subsection \<open>Decimal strings\<close>

lemma is_digit_char_of: "d < 10 \<Longrightarrow> is_digit (char_of (48 + d :: nat))"
  by (simp add: is_digit_def)

lemma digit_value_char_of: "d < 10 \<Longrightarrow> (of_char (char_of (48 + d :: nat)) :: nat) - 48 = d"
  by simp

lemma char_of_digit_value: "is_digit c \<Longrightarrow> char_of (48 + ((of_char c :: nat) - 48)) = c"
  by (simp add: is_digit_def)

lemma digit_value_less: "is_digit c \<Longrightarrow> (of_char c :: nat) - 48 < 10"
  by (auto simp: is_digit_def)

lemma char_of_48: "char_of (48 :: nat) = CHR ''0''"
  by (simp add: char_of_eq_iff)

lemma decimal_value_snoc:
  "decimal_value acc (xs @ [c]) = decimal_value acc xs * 10 + (of_char c - 48)"
  by (induction xs arbitrary: acc) simp_all

lemma Itoa_digits: "list_all is_digit (Itoa n)"
proof (induction n rule: Itoa.induct)
  case (1 n)
  show ?case
  proof (cases "n < 10")
    case True
    then show ?thesis by (simp add: Itoa.simps [of n] is_digit_char_of)
  next
    case False
    with 1 show ?thesis by (simp add: Itoa.simps [of n] is_digit_char_of)
  qed
qed

lemma Itoa_nonempty: "Itoa n \<noteq> []"
  by (simp add: Itoa.simps [of n])

lemma decimal_value_Itoa: "decimal_value 0 (Itoa n) = n"
proof (induction n rule: Itoa.induct)
  case (1 n)
  show ?case
  proof (cases "n < 10")
    case True
    then show ?thesis by (simp add: Itoa.simps [of n])
  next
    case False
    with 1 have "decimal_value 0 (Itoa (n div 10)) = n div 10" by simp
    with False show ?thesis
      by (simp add: Itoa.simps [of n] decimal_value_snoc)
  qed
qed

lemma decimal_value_zeros:
  "decimal_value 0 (replicate z (CHR ''0'') @ s) = decimal_value 0 s"
  by (induction z) simp_all

lemma decimal_value_bound:
  "list_all is_digit d \<Longrightarrow> decimal_value 0 d < 10 ^ length d"
proof (induction d rule: rev_induct)
  case Nil
  then show ?case by simp
next
  case (snoc c d)
  then have "decimal_value 0 d < 10 ^ length d" and "(of_char c :: nat) - 48 < 10"
    by (simp_all add: digit_value_less)
  then show ?case by (simp add: decimal_value_snoc)
qed

lemma length_Itoa: "0 < s \<Longrightarrow> n < 10 ^ s \<Longrightarrow> length (Itoa n) \<le> s"
proof (induction n arbitrary: s rule: Itoa.induct)
  case (1 n)
  show ?case
  proof (cases "n < 10")
    case True
    with "1.prems" show ?thesis by (simp add: Itoa.simps [of n])
  next
    case False
    with "1.prems" obtain s' where s: "s = Suc s'" by (cases s) simp_all
    with False "1.prems" have "0 < s'" by (cases s') simp_all
    moreover from "1.prems" s have "n div 10 < 10 ^ s'"
      by (simp add: less_mult_imp_div_less mult.commute)
    ultimately have "length (Itoa (n div 10)) \<le> s'" using False "1.IH" by simp
    with False s show ?thesis by (simp add: Itoa.simps [of n])
  qed
qed

lemma Itoa_snoc:
  "x < 10 \<Longrightarrow> 0 < a \<Longrightarrow> Itoa (a * 10 + x) = Itoa a @ [char_of (48 + x)]"
  by (subst Itoa.simps) simp

lemma Itoa_small: "x < 10 \<Longrightarrow> Itoa x = [char_of (48 + x)]"
  by (subst Itoa.simps) simp

lemma pad_Itoa_decimal_value:
  "list_all is_digit d \<Longrightarrow> d \<noteq> [] \<Longrightarrow>
   replicate (length d - length (Itoa (decimal_value 0 d))) (CHR ''0'')
     @ Itoa (decimal_value 0 d) = d"
proof (induction d rule: rev_induct)
  case Nil
  then show ?case by simp
next
  case (snoc c d)
  let ?x = "(of_char c :: nat) - 48"
  from snoc.prems have c: "is_digit c" and d: "list_all is_digit d" by simp_all
  from c have x: "?x < 10" by (rule digit_value_less)
  from c have undo: "char_of (48 + ?x) = c" by (rule char_of_digit_value)
  show ?case
  proof (cases "d = []")
    case True
    with x undo show ?thesis by (simp add: Itoa_small)
  next
    case False
    let ?a = "decimal_value 0 d"
    from snoc.IH [OF d False]
    have IH: "replicate (length d - length (Itoa ?a)) (CHR ''0'') @ Itoa ?a = d" .
    show ?thesis
    proof (cases "?a = 0")
      case True
      with IH have e: "replicate (length d - 1) (CHR ''0'') @ [CHR ''0''] = d"
        by (simp add: Itoa_small char_of_48)
      have len: "length d = Suc (length d - 1)" using False by (cases d) simp_all
      have "replicate (length d) (CHR ''0'') = replicate (Suc (length d - 1)) (CHR ''0'')"
        by (rule arg_cong [OF len])
      also have "\<dots> = replicate (length d - 1) (CHR ''0'') @ [CHR ''0'']"
        by (simp add: replicate_append_same)
      also have "\<dots> = d" by (rule e)
      finally have zeros: "replicate (length d) (CHR ''0'') = d" .
      from True x undo have "Itoa (decimal_value 0 (d @ [c])) = [c]"
        by (simp add: decimal_value_snoc Itoa_small)
      with zeros show ?thesis by simp
    next
      case False
      then have "Itoa (decimal_value 0 (d @ [c])) = Itoa ?a @ [c]"
        using x undo by (simp add: decimal_value_snoc Itoa_snoc)
      moreover have "length (Itoa ?a) \<le> length d"
        using arg_cong [OF IH, of length] by simp
      ultimately show ?thesis using IH by simp
    qed
  qed
qed

lemma ParseUint_digits:
  "list_all is_digit d \<Longrightarrow> d \<noteq> [] \<Longrightarrow> length d \<le> 9 \<Longrightarrow> ParseUint d = Inr (decimal_value 0 d)"
proof -
  assume d: "list_all is_digit d" "d \<noteq> []" "length d \<le> 9"
  have "decimal_value 0 d < 10 ^ length d" using d(1) by (rule decimal_value_bound)
  also have "(10::nat) ^ length d \<le> 10 ^ 9" using d(3) by (intro power_increasing) simp_all
  also have "(10::nat) ^ 9 < 2 ^ 32" by simp
  finally show ?thesis using d by (simp add: ParseUint_def)
qed

section \<open>Round trip of the codec\<close>

subsection \<open>What validation gives\<close>

lemma base_facts:
  assumes "3 \<le> s" "s \<le> 9"
  obtains base where "encodingBaseToSaveOneChar (int s) = Inr base"
    and "base \<in> set [14, 15, 16, 18, 22, 32]"
    and "10 ^ s \<le> base ^ (s - 1)" and "base ^ (s - 1) < 2 ^ 31"
proof -
  from assms consider "s = 3" | "s = 4" | "s = 5" | "s = 6" | "s = 7" | "s = 8" | "s = 9"
    by linarith
  then show thesis
  proof cases
    case 1 then show ?thesis by (intro that [of 32]) (simp_all add: encodingBase_values)
  next
    case 2 then show ?thesis by (intro that [of 22]) (simp_all add: encodingBase_values)
  next
    case 3 then show ?thesis by (intro that [of 18]) (simp_all add: encodingBase_values)
  next
    case 4 then show ?thesis by (intro that [of 16]) (simp_all add: encodingBase_values)
  next
    case 5 then show ?thesis by (intro that [of 15]) (simp_all add: encodingBase_values)
  next
    case 6 then show ?thesis by (intro that [of 14]) (simp_all add: encodingBase_values)
  next
    case 7 then show ?thesis by (intro that [of 14]) (simp_all add: encodingBase_values)
  qed
qed

lemma validate_bases_None:
  "validate_bases ap bs = None \<Longrightarrow> base \<in> set bs \<Longrightarrow>
     \<exists>alpha. ap base = Inr alpha \<and> length alpha = base \<and> distinct alpha"
proof (induction bs)
  case Nil
  then show ?case by simp
next
  case (Cons i rest)
  from Cons.prems(1) obtain alpha where a: "ap i = Inr alpha" "length alpha = i"
    "length (remdups alpha) = length alpha" "validate_bases ap rest = None"
    by (auto split: sum.splits if_splits)
  from a(3) have "distinct alpha"
    by simp
  with a Cons show ?case by auto
qed

lemma validated_alphabet:
  assumes "validateAlphabetProvider ap = None" "base \<in> set [14, 15, 16, 18, 22, 32]"
  obtains alpha where "ap base = Inr alpha" "length alpha = base" "distinct alpha"
  using validate_bases_None [OF assms [unfolded validateAlphabetProvider_def]] by blast

lemma ascii_alphabet:
  "ascii_alphabets ap \<Longrightarrow> base \<in> set [14, 15, 16, 18, 22, 32] \<Longrightarrow> ap base = Inr alpha
     \<Longrightarrow> list_all is_ascii alpha"
  by (auto simp: ascii_alphabets_def)

subsection \<open>Encoding then decoding, decoding then encoding\<close>

lemma decode_encode:
  assumes valid: "validateAlphabetProvider ap = None" and ascii: "ascii_alphabets ap"
    and d: "list_all is_digit d" "3 \<le> length d" "length d \<le> 9"
  shows "\<exists>t. encodeTkMD d ap = Inr t \<and> length t = length d - 1 \<and> symbols_valid ap t \<and>
             decodeTkMD t ap = Inr d"
proof -
  let ?s = "length d"
  let ?n = "decimal_value 0 d"
  from d(2,3) obtain base where base: "encodingBaseToSaveOneChar (int ?s) = Inr base"
    "base \<in> set [14, 15, 16, 18, 22, 32]" "10 ^ ?s \<le> base ^ (?s - 1)" "base ^ (?s - 1) < 2 ^ 31"
    by (rule base_facts)
  from valid base(2) obtain alpha where alpha: "ap base = Inr alpha" "length alpha = base"
    "distinct alpha"
    by (rule validated_alphabet)
  from ascii base(2) alpha(1) have asc: "list_all is_ascii alpha" by (rule ascii_alphabet)
  from d(2) have ne: "d \<noteq> []" by auto
  have parse: "ParseUint d = Inr ?n" using d(1) ne d(3) by (rule ParseUint_digits)
  have "?n < 10 ^ ?s" using d(1) by (rule decimal_value_bound)
  then have n_lt: "?n < base ^ (?s - 1)" using base(3) by (rule less_le_trans)
  then have "?n < 2 ^ 31" using base(4) by (rule less_trans)
  then have "0 + ?n < 2 ^ 32" by simp
  from encode_then_decode_loop [OF alpha(3,2) asc base(4) n_lt this] obtain t
    where t: "encode_loop base alpha (?s - 1) ?n = Inr t" "length t = ?s - 1"
      "set t \<subseteq> set alpha"
      "decode_loop (build_alphaMap alpha 0 Map.empty) base t 0 = Inr ?n"
    by auto
  have enc: "encodeTkMD d ap = Inr t"
    using d(2,3) parse base(1) alpha(1) t(1) by (simp add: encodeTkMD_def)
  have len: "length t + 1 = ?s" using t(2) d(2) by simp
  have sv: "symbols_valid ap t"
    unfolding symbols_valid_def len using base(1) alpha(1) t(3)
    by (simp add: list_all_iff subset_iff)
  have range: "2 \<le> length t" "length t \<le> 8" using len d(2,3) by linarith+
  have len': "Suc (length t) = ?s" using len by simp
  have dec: "decodeTkMD t ap = Inr d"
    using range t(4) base(1) alpha(1) pad_Itoa_decimal_value [OF d(1) ne]
    by (simp add: decodeTkMD_def len' Let_def)
  from enc t(2) sv dec show ?thesis by blast
qed

lemma encode_decode:
  assumes valid: "validateAlphabetProvider ap = None" and ascii: "ascii_alphabets ap"
    and t: "2 \<le> length t" "length t \<le> 8" "symbols_valid ap t"
  shows "\<exists>d. decodeTkMD t ap = Inr d \<and> list_all is_digit d \<and>
             (length d = length t + 1 \<longrightarrow> encodeTkMD d ap = Inr t)"
proof -
  let ?s = "length t + 1"
  from t(1,2) have "3 \<le> ?s" "?s \<le> 9" by simp_all
  then obtain base where base: "encodingBaseToSaveOneChar (int ?s) = Inr base"
    "base \<in> set [14, 15, 16, 18, 22, 32]" "10 ^ ?s \<le> base ^ (?s - 1)" "base ^ (?s - 1) < 2 ^ 31"
    by (rule base_facts)
  from valid base(2) obtain alpha where alpha: "ap base = Inr alpha" "length alpha = base"
    "distinct alpha"
    by (rule validated_alphabet)
  from ascii base(2) alpha(1) have asc: "list_all is_ascii alpha" by (rule ascii_alphabet)
  from t(3) base(1) alpha(1) have sub: "set t \<subseteq> set alpha"
    by (auto simp: symbols_valid_def list_all_iff)
  from base(4) have small: "base ^ length t < 2 ^ 31" by simp
  then have "0 + base ^ length t \<le> 2 ^ 32" by simp
  from decode_then_encode_loop [OF alpha(2) asc sub small this] obtain v
    where v: "decode_loop (build_alphaMap alpha 0 Map.empty) base t 0 = Inr v"
      "v < base ^ length t" "encode_loop base alpha (length t) v = Inr t"
    by auto
  let ?d = "replicate (?s - length (Itoa v)) (CHR ''0'') @ Itoa v"
  have dec: "decodeTkMD t ap = Inr ?d"
    using t(1,2) base(1) alpha(1) v(1) by (simp add: decodeTkMD_def Let_def)
  have "is_digit (CHR ''0'')" by (simp add: is_digit_def)
  then have digits: "list_all is_digit ?d"
    using Itoa_digits [of v] by (auto simp: list_all_iff)
  have enc: "encodeTkMD ?d ap = Inr t" if len: "length ?d = ?s"
  proof -
    have ne: "?d \<noteq> []" using Itoa_nonempty [of v] by simp
    have "length ?d \<le> 9" using len t(2) by simp
    with digits ne have "ParseUint ?d = Inr (decimal_value 0 ?d)" by (rule ParseUint_digits)
    then have parse: "ParseUint ?d = Inr v"
      by (simp only: decimal_value_zeros decimal_value_Itoa)
    have "encodeTkMD ?d ap = encode_loop base alpha (length t) v"
      unfolding encodeTkMD_def len using t(1,2) parse base(1) alpha(1) by simp
    with v(3) show ?thesis by simp
  qed
  from dec digits enc show ?thesis by blast
qed

text \<open>
  Claim C2, as the code has it. Let the alphabet provider pass the validation of
  \<open>NewEngine\<close> and let every symbol of its alphabets be below \<open>0x80\<close>. Then every string
  \<open>d\<close> of 3 to 9 decimal digits is encoded, and decoding the result gives \<open>d\<close> back. Every
  string \<open>t\<close> of 2 to 8 symbols of the alphabet selected for its length is decoded, and
  whenever the decoded string has exactly one character more than \<open>t\<close> (the value of \<open>t\<close> is
  below \<open>10^(len(t)+1)\<close>), encoding it gives \<open>t\<close> back.
\<close>

theorem codec_round_trip:
  assumes "validateAlphabetProvider ap = None" and "ascii_alphabets ap"
  shows "(list_all is_digit d \<and> 3 \<le> length d \<and> length d \<le> 9 \<longrightarrow>
            (\<exists>t. encodeTkMD d ap = Inr t \<and> decodeTkMD t ap = Inr d)) \<and>
         (2 \<le> length t \<and> length t \<le> 8 \<and> symbols_valid ap t \<longrightarrow>
            (\<exists>d'. decodeTkMD t ap = Inr d' \<and>
                   (length d' = length t + 1 \<longrightarrow> encodeTkMD d' ap = Inr t)))"
  using decode_encode [OF assms, of d] encode_decode [OF assms, of t] by blast

lemma default_alphabets_valid: "validateAlphabetProvider DefaultAlphabetProvider = None"
  by (simp add: validateAlphabetProvider_def DefaultAlphabetProvider_def default_alphabets_def)

lemma default_alphabets_ascii: "ascii_alphabets DefaultAlphabetProvider"
  by (simp add: ascii_alphabets_def DefaultAlphabetProvider_def default_alphabets_def is_ascii_def)

theorem codec_round_trip_witness:
  "validateAlphabetProvider DefaultAlphabetProvider = None \<and>
   ascii_alphabets DefaultAlphabetProvider \<and>
   list_all is_digit ''352'' \<and> 3 \<le> length ''352'' \<and> length ''352'' \<le> 9 \<and>
   encodeTkMD ''352'' DefaultAlphabetProvider = Inr ''la'' \<and>
   2 \<le> length ''la'' \<and> length ''la'' \<le> 8 \<and> symbols_valid DefaultAlphabetProvider ''la'' \<and>
   decodeTkMD ''la'' DefaultAlphabetProvider = Inr ''352'' \<and>
   length ''352'' = length ''la'' + 1"
  using codec_round_trip [OF default_alphabets_valid default_alphabets_ascii, of "''352''" "''la''"]
  by (simp add: default_alphabets_valid default_alphabets_ascii symbols_valid_def codec_eval)

text \<open>
  The second half of claim C2 fails without the condition on the decoded length: the base
  is chosen with \<open>base^(s-1) > 10^s - 1\<close>, so some symbol strings stand for a value of more
  than \<open>s\<close> digits. "55" is two symbols of the base-32 alphabet with the value 1023;
  \<open>decodeTkMD\<close> returns the four characters "1023", and \<open>encodeTkMD\<close> of these is "ccl".
\<close>

theorem symbol_string_not_recovered:
  "2 \<le> length ''55'' \<and> length ''55'' \<le> 8 \<and> symbols_valid DefaultAlphabetProvider ''55'' \<and>
   decodeTkMD ''55'' DefaultAlphabetProvider = Inr ''1023'' \<and>
   encodeTkMD ''1023'' DefaultAlphabetProvider = Inr ''ccl'' \<and>
   encodeTkMD ''1023'' DefaultAlphabetProvider \<noteq> Inr ''55''"
  by (simp add: symbols_valid_def codec_eval)

section \<open>The message of the keyed hash\<close>

lemmas engine_eval =
  nominal_engine_def high_version_engine_def deterministicVersioner_def fixedKeyRepo_def
  stand_in_def zero_key_def isValidCC_def slice_def sixByFour_cc_def sixByFour_tk_def
  make_bytes_def copy_bytes_def

lemmas token_eval =
  isValidTK_def IsDigit_def decode_rune_def rune_size_def accept_lo_def accept_hi_def

lemma sixByFour_cc_eq:
  "6 \<le> length cc \<Longrightarrow>
   sixByFour_cc cc = take 6 cc @ replicate 4 (CHR 0x00) @ drop (length cc - 4) cc"
  by (simp add: sixByFour_cc_def make_bytes_def copy_bytes_def slice_def min_def)

lemma sixByFour_tk_eq:
  "6 \<le> length tk \<Longrightarrow>
   sixByFour_tk tk = take 6 tk @ replicate 4 (CHR 0x00) @ drop (length tk - 4) tk"
  by (simp add: sixByFour_tk_def make_bytes_def copy_bytes_def slice_def min_def)

text \<open>
  The keyed hash enters \<open>EncryptCC\<close> and \<open>DecryptTK\<close> through these buffers only: two
  hash functions that agree on the buffer give the same result.
\<close>

lemma EncryptCC_hashes_sixByFour:
  assumes "\<And>key. h key (sixByFour_cc cc) = h' key (sixByFour_cc cc)"
  shows "EncryptCC (L\<lparr>hmac_sha256 := h\<rparr>) e cc = EncryptCC (L\<lparr>hmac_sha256 := h'\<rparr>) e cc"
  by (simp add: EncryptCC_def Let_def assms split: sum.splits)

lemma DecryptTK_hashes_sixByFour:
  assumes "\<And>key. h key (sixByFour_tk tk) = h' key (sixByFour_tk tk)"
  shows "DecryptTK (L\<lparr>hmac_sha256 := h\<rparr>) e tk = DecryptTK (L\<lparr>hmac_sha256 := h'\<rparr>) e tk"
  by (simp add: DecryptTK_def Let_def assms split: sum.splits)

lemma isValidTK_length: "isValidTK nd tk ap vers \<Longrightarrow> 13 \<le> length tk"
  by (auto simp: isValidTK_def split: if_splits)

text \<open>
  Claim C4. Take a card that passes \<open>isValidCC\<close> and a token that passes \<open>isValidTK\<close>
  whose first 6 and last 4 bytes agree, and an engine whose HMAC key is \<open>hkey\<close> both for
  the tokenization version and for the version byte of the token. Then \<open>EncryptCC\<close> and
  \<open>DecryptTK\<close> build the same buffer \<open>M\<close> of 14 bytes, the first 6 bytes, four zero
  bytes, the last 4 bytes, and the only value of the keyed hash that either of them uses
  is \<open>hmac_sha256 L hkey M\<close>: \<open>EncryptCC\<close> is what the cipher built from that tweak makes
  of the middle digits, and \<open>DecryptTK\<close> is what the cipher built from the same tweak makes
  of the decoded middle segment.
\<close>

theorem tweak_message_same:
  assumes same: "take 6 cc = take 6 tk" "drop (length cc - 4) cc = drop (length tk - 4) tk"
    and cc: "isValidCC cc"
    and v: "GetTokenizationVersion (versioner e) = Inr v"
    and ek: "encryptionKeys e v = Inr ekey" and hk: "hmacKeys e v = Inr hkey"
    and vers: "GetDetokenizationVersions (versioner e) = Inr vers"
    and tk: "isValidTK (unicode_Nd L) tk (alphaProvider e) vers"
    and ek': "encryptionKeys e (tk ! 6) = Inr ekey'" and hk': "hmacKeys e (tk ! 6) = Inr hkey"
  shows
    "(let M = take 6 cc @ replicate 4 (CHR 0x00) @ drop (length cc - 4) cc;
          tweak = hmac_sha256 L hkey M;
          md = slice tk 6 (length tk - 4)
      in length M = 14 \<and> sixByFour_cc cc = M \<and> sixByFour_tk tk = M \<and>
         EncryptCC L e cc =
           (case ff1_NewCipher L 10 (length tweak) ekey tweak of
              Inl err \<Rightarrow> Inl err
            | Inr cipher \<Rightarrow>
                (case ff1_Encrypt L cipher (slice cc 6 (length cc - 4)) of
                   Inl err \<Rightarrow> Inl err
                 | Inr ciphertext \<Rightarrow>
                     if length (slice cc 6 (length cc - 4)) \<noteq> length ciphertext
                     then Inl (LengthDiffers (slice cc 6 (length cc - 4)) ciphertext)
                     else (case encodeTkMD ciphertext (alphaProvider e) of
                             Inl err \<Rightarrow> Inl err
                           | Inr tkmd \<Rightarrow>
                               Inr (slice cc 0 6 @ string_of_byte v @ tkmd
                                    @ slice cc (length cc - 4) (length cc))))) \<and>
         DecryptTK L e tk =
           (case decodeTkMD (slice md 1 (length md)) (alphaProvider e) of
              Inl err \<Rightarrow> Inl err
            | Inr decmd \<Rightarrow>
                (case ff1_NewCipher L 10 (length tweak) ekey' tweak of
                   Inl err \<Rightarrow> Inl err
                 | Inr cipher \<Rightarrow>
                     (case ff1_Decrypt L cipher decmd of
                        Inl err \<Rightarrow> Inl err
                      | Inr plaintext \<Rightarrow>
                          if length md \<noteq> length plaintext
                          then Inl (LengthDiffers md plaintext)
                          else Inr (slice tk 0 6 @ plaintext
                                    @ slice tk (length tk - 4) (length tk))))))"
proof -
  let ?M = "take 6 cc @ replicate 4 (CHR 0x00) @ drop (length cc - 4) cc"
  from cc have lcc: "6 \<le> length cc" by (simp add: isValidCC_def)
  from isValidTK_length [OF tk] have ltk: "6 \<le> length tk" by simp
  have Mcc: "sixByFour_cc cc = ?M" using lcc by (rule sixByFour_cc_eq)
  have Mtk: "sixByFour_tk tk = ?M" using sixByFour_tk_eq [OF ltk] same by simp
  have len: "length ?M = 14" using lcc by simp
  have enc: "EncryptCC L e cc =
           (case ff1_NewCipher L 10 (length (hmac_sha256 L hkey ?M)) ekey (hmac_sha256 L hkey ?M) of
              Inl err \<Rightarrow> Inl err
            | Inr cipher \<Rightarrow>
                (case ff1_Encrypt L cipher (slice cc 6 (length cc - 4)) of
                   Inl err \<Rightarrow> Inl err
                 | Inr ciphertext \<Rightarrow>
                     if length (slice cc 6 (length cc - 4)) \<noteq> length ciphertext
                     then Inl (LengthDiffers (slice cc 6 (length cc - 4)) ciphertext)
                     else (case encodeTkMD ciphertext (alphaProvider e) of
                             Inl err \<Rightarrow> Inl err
                           | Inr tkmd \<Rightarrow>
                               Inr (slice cc 0 6 @ string_of_byte v @ tkmd
                                    @ slice cc (length cc - 4) (length cc)))))"
    unfolding EncryptCC_def Mcc using cc v ek hk by (simp add: Let_def)
  have dec: "DecryptTK L e tk =
           (case decodeTkMD (slice (slice tk 6 (length tk - 4)) 1
                   (length (slice tk 6 (length tk - 4)))) (alphaProvider e) of
              Inl err \<Rightarrow> Inl err
            | Inr decmd \<Rightarrow>
                (case ff1_NewCipher L 10 (length (hmac_sha256 L hkey ?M)) ekey'
                        (hmac_sha256 L hkey ?M) of
                   Inl err \<Rightarrow> Inl err
                 | Inr cipher \<Rightarrow>
                     (case ff1_Decrypt L cipher decmd of
                        Inl err \<Rightarrow> Inl err
                      | Inr plaintext \<Rightarrow>
                          if length (slice tk 6 (length tk - 4)) \<noteq> length plaintext
                          then Inl (LengthDiffers (slice tk 6 (length tk - 4)) plaintext)
                          else Inr (slice tk 0 6 @ plaintext
                                    @ slice tk (length tk - 4) (length tk)))))"
    unfolding DecryptTK_def Mtk using vers tk ek' hk' by (simp add: Let_def)
  show ?thesis
    unfolding Let_def using len Mcc Mtk enc dec by blast
qed

theorem tweak_message_same_witness:
  "take 6 ''4444333322221111'' = take 6 ''444433adgebj1111'' \<and>
   drop (length ''4444333322221111'' - 4) ''4444333322221111''
     = drop (length ''444433adgebj1111'' - 4) ''444433adgebj1111'' \<and>
   isValidCC ''4444333322221111'' \<and>
   GetTokenizationVersion (versioner nominal_engine) = Inr (CHR ''a'') \<and>
   encryptionKeys nominal_engine (CHR ''a'') = Inr zero_key \<and>
   hmacKeys nominal_engine (CHR ''a'') = Inr zero_key \<and>
   GetDetokenizationVersions (versioner nominal_engine) = Inr ''abcd'' \<and>
   isValidTK (unicode_Nd stand_in) ''444433adgebj1111'' (alphaProvider nominal_engine) ''abcd'' \<and>
   encryptionKeys nominal_engine (''444433adgebj1111'' ! 6) = Inr zero_key \<and>
   hmacKeys nominal_engine (''444433adgebj1111'' ! 6) = Inr zero_key \<and>
   sixByFour_cc ''4444333322221111''
     = ''444433'' @ [CHR 0x00, CHR 0x00, CHR 0x00, CHR 0x00] @ ''1111'' \<and>
   sixByFour_tk ''444433adgebj1111''
     = ''444433'' @ [CHR 0x00, CHR 0x00, CHR 0x00, CHR 0x00] @ ''1111'' \<and>
   ff1_NewCipher stand_in 10
     (length (hmac_sha256 stand_in zero_key
        (''444433'' @ [CHR 0x00, CHR 0x00, CHR 0x00, CHR 0x00] @ ''1111'')))
     zero_key
     (hmac_sha256 stand_in zero_key
        (''444433'' @ [CHR 0x00, CHR 0x00, CHR 0x00, CHR 0x00] @ ''1111'')) = Inr () \<and>
   EncryptCC stand_in nominal_engine ''4444333322221111'' = Inr ''444433adgebj1111'' \<and>
   DecryptTK stand_in nominal_engine ''444433adgebj1111'' = Inr ''4444333322221111''"
proof -
  have h1: "take 6 ''4444333322221111'' = take 6 ''444433adgebj1111''"
    and h2: "drop (length ''4444333322221111'' - 4) ''4444333322221111''
       = drop (length ''444433adgebj1111'' - 4) ''444433adgebj1111''"
    by (simp_all add: numeral_eq_Suc)
  have h3: "isValidCC ''4444333322221111''" by (simp add: isValidCC_def is_digit_def)
  have h4: "GetTokenizationVersion (versioner nominal_engine) = Inr (CHR ''a'')"
    and h7: "GetDetokenizationVersions (versioner nominal_engine) = Inr ''abcd''"
    by (simp_all add: nominal_engine_def deterministicVersioner_def)
  have h5: "encryptionKeys nominal_engine (CHR ''a'') = Inr zero_key"
    and h6: "hmacKeys nominal_engine (CHR ''a'') = Inr zero_key"
    and h9: "encryptionKeys nominal_engine (''444433adgebj1111'' ! 6) = Inr zero_key"
    and h10: "hmacKeys nominal_engine (''444433adgebj1111'' ! 6) = Inr zero_key"
    by (simp_all add: nominal_engine_def fixedKeyRepo_def)
  have h8: "isValidTK (unicode_Nd stand_in) ''444433adgebj1111'' (alphaProvider nominal_engine) ''abcd''"
    by (simp add: engine_eval codec_eval token_eval)
  note pinned = tweak_message_same [OF h1 h2 h3 h4 h5 h6 h7 h8 h9 h10, unfolded Let_def]
  have buf_cc: "sixByFour_cc ''4444333322221111''
          = ''444433'' @ [CHR 0x00, CHR 0x00, CHR 0x00, CHR 0x00] @ ''1111''"
    using pinned [THEN conjunct2, THEN conjunct1] by (simp add: numeral_eq_Suc)
  have buf_tk: "sixByFour_tk ''444433adgebj1111''
          = ''444433'' @ [CHR 0x00, CHR 0x00, CHR 0x00, CHR 0x00] @ ''1111''"
    using pinned [THEN conjunct2, THEN conjunct2, THEN conjunct1] by (simp add: numeral_eq_Suc)
  have new: "ff1_NewCipher stand_in 10
     (length (hmac_sha256 stand_in zero_key
        (''444433'' @ [CHR 0x00, CHR 0x00, CHR 0x00, CHR 0x00] @ ''1111'')))
     zero_key
     (hmac_sha256 stand_in zero_key
        (''444433'' @ [CHR 0x00, CHR 0x00, CHR 0x00, CHR 0x00] @ ''1111'')) = Inr ()"
    by (simp add: stand_in_def zero_key_def)
  have enc: "EncryptCC stand_in nominal_engine ''4444333322221111'' = Inr ''444433adgebj1111''"
    using pinned [THEN conjunct2, THEN conjunct2, THEN conjunct2, THEN conjunct1]
    by (simp add: engine_eval codec_eval)
  have dec: "DecryptTK stand_in nominal_engine ''444433adgebj1111'' = Inr ''4444333322221111''"
    using pinned [THEN conjunct2, THEN conjunct2, THEN conjunct2, THEN conjunct2]
    by (simp add: engine_eval codec_eval)
  from buf_cc buf_tk new enc dec h1 h2 h3 h4 h5 h6 h7 h8 h9 h10 show ?thesis
    by (intro conjI)
qed

text \<open>
  Claim C3 says that the message of the keyed hash is the 10-character concatenation of
  the first 6 and the last 4 characters. The buffer is made with \<open>make([]byte, 10)\<close>, which
  already has ten bytes, and the last 4 bytes are appended after them: for the card
  "4444333322221111" and for the token "444433aapchc1111" the message is the 14 bytes
  "444433", 0, 0, 0, 0, "1111", not "4444331111".
\<close>

theorem hmac_message_at_nominal_card:
  "sixByFour_cc ''4444333322221111''
     = ''444433'' @ [CHR 0x00, CHR 0x00, CHR 0x00, CHR 0x00] @ ''1111'' \<and>
   length (sixByFour_cc ''4444333322221111'') = 14 \<and>
   sixByFour_cc ''4444333322221111'' \<noteq> ''444433'' @ ''1111'' \<and>
   sixByFour_tk ''444433aapchc1111''
     = ''444433'' @ [CHR 0x00, CHR 0x00, CHR 0x00, CHR 0x00] @ ''1111'' \<and>
   length (sixByFour_tk ''444433aapchc1111'') = 14 \<and>
   sixByFour_tk ''444433aapchc1111'' \<noteq> ''444433'' @ ''1111''"
  by (simp add: sixByFour_cc_def sixByFour_tk_def make_bytes_def copy_bytes_def slice_def
      numeral_eq_Suc)

section \<open>Rejected inputs\<close>

text \<open>
  Claim C5, as the code has it. \<open>EncryptCC\<close> fails with "Invalid CC format" for every
  input that contains a character outside \<open>0\<close> to \<open>9\<close> or whose length is below 13 or
  above 19, whatever the engine; in particular for "A444333322221111" and for
  "44443333222211111111".
\<close>

theorem EncryptCC_rejects:
  "((\<exists>c \<in> set cc. \<not> is_digit c) \<or> length cc < 13 \<or> 19 < length cc
      \<longrightarrow> EncryptCC L e cc = Inl InvalidCC) \<and>
   EncryptCC L e ''A444333322221111'' = Inl InvalidCC \<and>
   EncryptCC L e ''44443333222211111111'' = Inl InvalidCC"
  by (auto simp: EncryptCC_def isValidCC_def list_all_iff is_digit_def)

theorem EncryptCC_rejects_witness:
  "(\<exists>c \<in> set ''4444-3333-2222''. \<not> is_digit c) \<and>
   EncryptCC stand_in nominal_engine ''4444-3333-2222'' = Inl InvalidCC \<and>
   length ''444433332222'' < 13 \<and>
   EncryptCC stand_in nominal_engine ''444433332222'' = Inl InvalidCC"
  using EncryptCC_rejects [of "''4444-3333-2222''" stand_in nominal_engine]
    EncryptCC_rejects [of "''444433332222''" stand_in nominal_engine]
  by (simp add: is_digit_def)

text \<open>
  The third input of claim C5, "444433332222111", is 15 digits and nothing else: it
  matches \<open>^[0-9]{13,19}$\<close> and is tokenized.
\<close>

theorem fifteen_digits_accepted:
  "length ''444433332222111'' = 15 \<and> list_all is_digit ''444433332222111'' \<and>
   isValidCC ''444433332222111'' \<and>
   EncryptCC stand_in nominal_engine ''444433332222111'' = Inr ''444433adold2111'' \<and>
   EncryptCC stand_in nominal_engine ''444433332222111'' \<noteq> Inl InvalidCC"
  by (simp add: EncryptCC_def engine_eval codec_eval)

subsection \<open>Validation of a token made of bytes below 0x80\<close>

lemma contains_iff: "contains s v \<longleftrightarrow> v \<in> set s"
  by (induction s) auto

lemma runes_ascii: "list_all is_ascii s \<Longrightarrow> runes s = map of_char s"
  by (induction s) (simp_all add: decode_rune_def rune_size_def is_ascii_def)

lemma is_digit_ascii: "is_digit c \<Longrightarrow> is_ascii c"
  by (simp add: is_digit_def is_ascii_def)

lemma IsDigit_digits:
  assumes "list_all is_digit s"
  shows "list_all (IsDigit nd) (runes s)"
proof -
  from assms have "list_all is_ascii s" by (auto simp: list_all_iff is_digit_ascii)
  then have "runes s = map of_char s" by (rule runes_ascii)
  with assms show ?thesis by (auto simp: list_all_iff IsDigit_def is_digit_def)
qed

text \<open>
  Claim C6. When the versioner returns the detokenization versions \<open>vers\<close> and the 7th
  byte of the token is not among them, \<open>DecryptTK\<close> returns "Invalid TK format".
\<close>

theorem DecryptTK_version_gate:
  assumes "GetDetokenizationVersions (versioner e) = Inr vers"
    and "6 < length tk" and "tk ! 6 \<notin> set vers"
  shows "DecryptTK L e tk = Inl InvalidTK"
  using assms
  by (simp add: DecryptTK_def isValidTK_def contains_iff Let_def split: sum.splits)

theorem DecryptTK_version_gate_witness:
  "GetDetokenizationVersions (versioner nominal_engine) = Inr ''abcd'' \<and>
   6 < length ''444433fapchc1111'' \<and> ''444433fapchc1111'' ! 6 \<notin> set ''abcd'' \<and>
   DecryptTK stand_in nominal_engine ''444433fapchc1111'' = Inl InvalidTK"
proof -
  have a: "GetDetokenizationVersions (versioner nominal_engine) = Inr ''abcd''"
    by (simp add: nominal_engine_def deterministicVersioner_def)
  have b: "6 < length ''444433fapchc1111''" by simp
  have c: "''444433fapchc1111'' ! 6 \<notin> set ''abcd''" by simp
  from DecryptTK_version_gate [OF a b c, of stand_in] a b c show ?thesis by blast
qed

section \<open>Tokens when the version byte and the symbols are below 0x80\<close>

text \<open>
  \<open>string(v)\<close> and \<open>string(alpha[m])\<close> are one byte each exactly when the byte is below
  \<open>0x80\<close>. Under that condition a token has the length of its card, keeps the first 6
  and the last 4 bytes, carries the version in its 7th byte, and is detokenized to the
  card it came from.
\<close>

subsection \<open>What a successful tokenization went through\<close>

lemma EncryptCC_Inr:
  assumes "EncryptCC L e cc = Inr tk"
  obtains v ekey hkey cipher ciphertext tkmd where
    "isValidCC cc"
    "GetTokenizationVersion (versioner e) = Inr v"
    "encryptionKeys e v = Inr ekey"
    "hmacKeys e v = Inr hkey"
    "ff1_NewCipher L 10 (length (hmac_sha256 L hkey (sixByFour_cc cc))) ekey
       (hmac_sha256 L hkey (sixByFour_cc cc)) = Inr cipher"
    "ff1_Encrypt L cipher (slice cc 6 (length cc - 4)) = Inr ciphertext"
    "length ciphertext = length cc - 10"
    "encodeTkMD ciphertext (alphaProvider e) = Inr tkmd"
    "tk = take 6 cc @ string_of_byte v @ tkmd @ drop (length cc - 4) cc"
proof -
  from assms have valid: "isValidCC cc"
    by (auto simp: EncryptCC_def split: if_splits)
  then have len: "13 \<le> length cc" by (simp add: isValidCC_def)
  from assms valid obtain v where v: "GetTokenizationVersion (versioner e) = Inr v"
    by (auto simp: EncryptCC_def Let_def split: sum.splits)
  from assms valid v obtain ekey where ekey: "encryptionKeys e v = Inr ekey"
    by (auto simp: EncryptCC_def Let_def split: sum.splits)
  from assms valid v ekey obtain hkey where hkey: "hmacKeys e v = Inr hkey"
    by (auto simp: EncryptCC_def Let_def split: sum.splits)
  let ?tweak = "hmac_sha256 L hkey (sixByFour_cc cc)"
  from assms valid v ekey hkey obtain cipher
    where cipher: "ff1_NewCipher L 10 (length ?tweak) ekey ?tweak = Inr cipher"
    by (auto simp: EncryptCC_def Let_def split: sum.splits)
  from assms valid v ekey hkey cipher obtain ciphertext
    where ct: "ff1_Encrypt L cipher (slice cc 6 (length cc - 4)) = Inr ciphertext"
    by (auto simp: EncryptCC_def Let_def split: sum.splits)
  from assms valid v ekey hkey cipher ct
  have same: "length (slice cc 6 (length cc - 4)) = length ciphertext"
    by (auto simp: EncryptCC_def Let_def split: if_splits)
  then have ctlen: "length ciphertext = length cc - 10"
    using len by (simp add: slice_def)
  from assms valid v ekey hkey cipher ct same obtain tkmd
    where tkmd: "encodeTkMD ciphertext (alphaProvider e) = Inr tkmd"
    by (auto simp: EncryptCC_def Let_def split: sum.splits)
  from assms valid v ekey hkey cipher ct same tkmd
  have "tk = take 6 cc @ string_of_byte v @ tkmd @ drop (length cc - 4) cc"
    by (simp add: EncryptCC_def Let_def slice_def)
  with valid v ekey hkey cipher ct ctlen tkmd show thesis by (rule that)
qed

lemma encode_loop_Suc_Inr:
  assumes "encode_loop base alpha (Suc k) n = Inr t"
  shows "\<exists>m n' s. m < length alpha \<and> encode_loop base alpha k n' = Inr s \<and>
                  t = string_of_byte (alpha ! m) @ s"
proof -
  let ?p = "int32 (int (base ^ k))"
  let ?m = "uint32 (quo (int32 (int n)) ?p)"
  let ?n' = "uint64 (rem (int32 (int n)) ?p)"
  from assms have m: "?m < length alpha"
    by (simp add: Let_def split: if_splits)
  from assms obtain s where s: "encode_loop base alpha k ?n' = Inr s"
    by (auto simp: Let_def split: if_splits sum.splits)
  from assms m s have "t = string_of_byte (alpha ! ?m) @ s"
    by (simp add: Let_def split: if_splits)
  with m s show ?thesis by blast
qed

lemma encode_loop_length:
  "encode_loop base alpha k n = Inr t \<Longrightarrow> list_all is_ascii alpha \<Longrightarrow> length t = k"
proof (induction k arbitrary: n t)
  case 0
  then show ?case by simp
next
  case (Suc k)
  from Suc.prems(1) obtain m n' s where m: "m < length alpha"
    and s: "encode_loop base alpha k n' = Inr s"
    and t: "t = string_of_byte (alpha ! m) @ s"
    using encode_loop_Suc_Inr by blast
  from m Suc.prems(2) have "is_ascii (alpha ! m)" by (simp add: list_all_iff)
  then have "string_of_byte (alpha ! m) = [alpha ! m]" by (rule string_of_byte_ascii)
  with t Suc.IH [OF s Suc.prems(2)] show ?case by simp
qed

lemma encodeTkMD_Inr:
  assumes "encodeTkMD ciphertext ap = Inr tkmd"
  shows "3 \<le> length ciphertext \<and> length ciphertext \<le> 9 \<and> list_all is_digit ciphertext"
  using assms by (auto simp: encodeTkMD_def ParseUint_def split: if_splits sum.splits)

lemma encodeTkMD_length:
  assumes enc: "encodeTkMD ciphertext ap = Inr tkmd" and ascii: "ascii_alphabets ap"
  shows "length tkmd = length ciphertext - 1"
proof -
  from encodeTkMD_Inr [OF enc] have range: "3 \<le> length ciphertext" "length ciphertext \<le> 9"
    by simp_all
  then obtain base where base: "encodingBaseToSaveOneChar (int (length ciphertext)) = Inr base"
    "base \<in> set [14, 15, 16, 18, 22, 32]"
    by (rule base_facts)
  from enc range base(1) obtain n alpha where alpha: "ap base = Inr alpha"
    and loop: "encode_loop base alpha (length ciphertext - 1) n = Inr tkmd"
    by (auto simp: encodeTkMD_def split: sum.splits)
  from ascii base(2) alpha have "list_all is_ascii alpha" by (rule ascii_alphabet)
  with loop show ?thesis by (rule encode_loop_length)
qed

lemma token_shape_ascii:
  assumes enc: "EncryptCC L e cc = Inr tk"
    and v: "GetTokenizationVersion (versioner e) = Inr v" "is_ascii v"
    and ascii: "ascii_alphabets (alphaProvider e)"
  shows "length tk = length cc \<and> take 6 tk = take 6 cc \<and> tk ! 6 = v \<and>
         drop (length tk - 4) tk = drop (length cc - 4) cc"
proof -
  from enc obtain v' ciphertext tkmd where
    valid: "isValidCC cc" and v': "GetTokenizationVersion (versioner e) = Inr v'"
    and ctlen: "length ciphertext = length cc - 10"
    and tkmd: "encodeTkMD ciphertext (alphaProvider e) = Inr tkmd"
    and tk: "tk = take 6 cc @ string_of_byte v' @ tkmd @ drop (length cc - 4) cc"
    by (rule EncryptCC_Inr)
  from v v' have "v' = v" by simp
  with v(2) tk have tk': "tk = take 6 cc @ [v] @ tkmd @ drop (length cc - 4) cc"
    by (simp add: string_of_byte_ascii)
  from valid have len: "13 \<le> length cc" by (simp add: isValidCC_def)
  from encodeTkMD_length [OF tkmd ascii] ctlen have mdlen: "length tkmd = length cc - 11"
    by simp
  from len mdlen have total: "length tk = length cc" by (simp add: tk')
  from len have six: "length (take 6 cc) = 6" by simp
  have seventh: "tk ! 6 = v"
    unfolding tk' using six by (simp add: nth_append)
  have "length tk - 4 = length (take 6 cc @ [v] @ tkmd)"
    using len mdlen total by simp
  then have "drop (length tk - 4) tk = drop (length cc - 4) cc"
    unfolding tk' by (simp only: append_assoc [symmetric] drop_append length_append) simp
  with total seventh len show ?thesis by (simp add: tk')
qed

subsection \<open>Detokenization of a token just produced\<close>

lemma alphaMap_defined:
  assumes "list_all is_ascii t" "set t \<subseteq> set alpha"
  shows "list_all (\<lambda>el. build_alphaMap alpha 0 Map.empty (char_of (el mod 256)) \<noteq> None) (runes t)"
proof -
  have "build_alphaMap alpha 0 Map.empty (char_of ((of_char c :: nat) mod 256)) \<noteq> None"
    if "c \<in> set t" for c
  proof -
    from that assms(2) have "c \<in> set alpha" by blast
    from build_alphaMap_in [OF this] show ?thesis by simp
  qed
  then show ?thesis
    by (simp add: runes_ascii [OF assms(1)] list_all_iff)
qed

lemma round_trip_ascii:
  assumes enc: "EncryptCC L e cc = Inr tk"
    and v: "GetTokenizationVersion (versioner e) = Inr v" "is_ascii v"
    and valid: "validateAlphabetProvider (alphaProvider e) = None"
    and ascii: "ascii_alphabets (alphaProvider e)"
    and detok: "GetDetokenizationVersions vr' = Inr vers" "v \<in> set vers"
    and inverse: "\<And>cipher X Y. ff1_Encrypt L cipher X = Inr Y \<Longrightarrow> ff1_Decrypt L cipher Y = Inr X"
  shows "DecryptTK L (e\<lparr>versioner := vr'\<rparr>) tk = Inr cc"
proof -
  let ?ap = "alphaProvider e"
  let ?md = "slice cc 6 (length cc - 4)"
  from enc obtain v' ekey hkey cipher ciphertext tkmd where
    cc: "isValidCC cc" and v': "GetTokenizationVersion (versioner e) = Inr v'"
    and ekey: "encryptionKeys e v' = Inr ekey" and hkey: "hmacKeys e v' = Inr hkey"
    and cipher: "ff1_NewCipher L 10 (length (hmac_sha256 L hkey (sixByFour_cc cc))) ekey
       (hmac_sha256 L hkey (sixByFour_cc cc)) = Inr cipher"
    and ct: "ff1_Encrypt L cipher ?md = Inr ciphertext"
    and ctlen: "length ciphertext = length cc - 10"
    and tkmd: "encodeTkMD ciphertext ?ap = Inr tkmd"
    and tk0: "tk = take 6 cc @ string_of_byte v' @ tkmd @ drop (length cc - 4) cc"
    by (rule EncryptCC_Inr)
  from v v' have [simp]: "v' = v" by simp
  from cc have len: "13 \<le> length cc" "length cc \<le> 19" and digits: "list_all is_digit cc"
    by (simp_all add: isValidCC_def)
  from token_shape_ascii [OF enc v ascii]
  have shape: "length tk = length cc" "take 6 tk = take 6 cc" "tk ! 6 = v"
    "drop (length tk - 4) tk = drop (length cc - 4) cc"
    by blast+
  from tk0 v(2) have tk: "tk = take 6 cc @ [v] @ tkmd @ drop (length cc - 4) cc"
    by (simp add: string_of_byte_ascii)
  from encodeTkMD_Inr [OF tkmd]
  have ctr: "3 \<le> length ciphertext" "length ciphertext \<le> 9" "list_all is_digit ciphertext"
    by simp_all
  from decode_encode [OF valid ascii ctr(3,1,2)] tkmd
  have mdlen: "length tkmd = length ciphertext - 1" and sv: "symbols_valid ?ap tkmd"
    and dec: "decodeTkMD tkmd ?ap = Inr ciphertext"
    by auto
  \<comment> \<open>the pieces \<open>DecryptTK\<close> cuts out of the token\<close>
  have six: "length (take 6 cc) = 6" using len by simp
  have k10: "length cc - 4 - 6 = Suc (length tkmd)" and k11: "length cc - 4 - 7 = length tkmd"
    using len mdlen ctlen ctr(1) by linarith+
  have middle: "slice tk 7 (length tk - 4) = tkmd"
    unfolding shape(1) slice_def k11 using six by (simp add: tk)
  have md': "slice tk 6 (length tk - 4) = v # tkmd"
    unfolding shape(1) slice_def k10 using six by (simp add: tk)
  have tail: "slice tk (length tk - 4) (length tk) = drop (length cc - 4) cc"
    unfolding slice_def shape(4) by (simp add: shape(1))
  have head: "slice tk 0 6 = take 6 cc"
    using shape(2) by (simp add: slice_def)
  \<comment> \<open>validation of the token\<close>
  from ctr(1,2) obtain base where base: "encodingBaseToSaveOneChar (int (length ciphertext)) = Inr base"
    "base \<in> set [14, 15, 16, 18, 22, 32]"
    by (rule base_facts)
  from valid base(2) obtain alpha where alpha: "?ap base = Inr alpha"
    by (rule validated_alphabet)
  from ascii base(2) alpha have asc: "list_all is_ascii alpha" by (rule ascii_alphabet)
  have size: "int (length tk) - 10 = int (length ciphertext)"
    using shape(1) ctlen len by simp
  have tlen: "int (length tkmd + 1) = int (length ciphertext)"
    using mdlen ctr(1) by simp
  from sv base(1) alpha have sub: "set tkmd \<subseteq> set alpha"
    unfolding symbols_valid_def tlen by (auto simp: list_all_iff)
  with asc have "list_all is_ascii tkmd" by (auto simp: list_all_iff)
  then have mid_ok: "list_all (\<lambda>el. build_alphaMap alpha 0 Map.empty (char_of (el mod 256)) \<noteq> None)
      (runes tkmd)"
    using sub by (rule alphaMap_defined)
  from digits have "list_all is_digit (take 6 cc)" "list_all is_digit (drop (length cc - 4) cc)"
    by (auto simp: list_all_iff dest: in_set_takeD in_set_dropD)
  then have dig_ok: "list_all (IsDigit (unicode_Nd L)) (runes (take 6 cc))"
    "list_all (IsDigit (unicode_Nd L)) (runes (drop (length cc - 4) cc))"
    by (simp_all add: IsDigit_digits)
  have validTK: "isValidTK (unicode_Nd L) tk ?ap vers"
    unfolding isValidTK_def head tail middle size
    using len shape(1,3) dig_ok base(1) alpha mid_ok detok(2)
    by (simp add: contains_iff)
  \<comment> \<open>the same tweak, the same cipher, the inverse operation\<close>
  have tweak: "sixByFour_tk tk = sixByFour_cc cc"
    using len shape by (simp add: sixByFour_tk_eq sixByFour_cc_eq)
  from inverse [OF ct] have plain: "ff1_Decrypt L cipher ciphertext = Inr ?md" .
  have mdl: "length ?md = Suc (length tkmd)"
    using len k10 by (simp add: slice_def)
  have cut: "slice (v # tkmd) (Suc 0) (Suc (length tkmd)) = tkmd"
    by (simp add: slice_def)
  have "drop (length cc - 4) cc = drop (length cc - 4 - 6) (drop 6 cc)"
    using len by simp
  then have "?md @ drop (length cc - 4) cc = drop 6 cc"
    unfolding slice_def by (simp only: append_take_drop_id)
  then have whole: "take 6 cc @ ?md @ drop (length cc - 4) cc = cc"
    by (simp only: append_take_drop_id)
  have "DecryptTK L (e\<lparr>versioner := vr'\<rparr>) tk
          = Inr (slice tk 0 6 @ ?md @ slice tk (length tk - 4) (length tk))"
    unfolding DecryptTK_def
    using detok(1) validTK ekey hkey cipher plain dec
    by (simp add: Let_def shape(3) md' tweak cut mdl)
  then show ?thesis
    by (simp only: head tail whole)
qed

text \<open>The nominal engine, version \<open>a\<close>, on the card "4444333322221111".\<close>

lemma round_trip_nominal:
  "EncryptCC stand_in nominal_engine ''4444333322221111'' = Inr ''444433adgebj1111'' \<and>
   DecryptTK stand_in nominal_engine ''444433adgebj1111'' = Inr ''4444333322221111''"
proof -
  have enc: "EncryptCC stand_in nominal_engine ''4444333322221111'' = Inr ''444433adgebj1111''"
    by (simp add: EncryptCC_def engine_eval codec_eval)
  have v: "GetTokenizationVersion (versioner nominal_engine) = Inr (CHR ''a'')"
    "GetDetokenizationVersions (versioner nominal_engine) = Inr ''abcd''"
    by (simp_all add: nominal_engine_def deterministicVersioner_def)
  have ap: "alphaProvider nominal_engine = DefaultAlphabetProvider"
    by (simp add: nominal_engine_def)
  have inverse: "ff1_Decrypt stand_in cipher Y = Inr X"
    if "ff1_Encrypt stand_in cipher X = Inr Y" for cipher X Y
    using that by (auto simp: stand_in_def list_all_iff split: if_splits)
  have "DecryptTK stand_in (nominal_engine\<lparr>versioner := versioner nominal_engine\<rparr>)
          ''444433adgebj1111'' = Inr ''4444333322221111''"
    by (rule round_trip_ascii [OF enc v(1) _ _ _ v(2) _ inverse])
       (simp_all add: ap default_alphabets_valid default_alphabets_ascii is_ascii_def)
  with enc show ?thesis by simp
qed

section \<open>Tokens when the version byte is 0xC8\<close>

text \<open>
  The engine of the nominal test case is run on the card "4444333322221111", with the
  version byte \<open>0xC8\<close> for tokenization and \<open>0xC8\<close> as the only detokenization version.
  \<open>string(v)\<close> is then the two bytes \<open>0xC3 0x88\<close>. For every version byte from \<open>0x80\<close>
  on, a token is one byte longer than its card (\<open>token_length_high\<close>).
\<close>

lemma string_of_byte_high: "\<not> is_ascii b \<Longrightarrow> length (string_of_byte b) = 2"
  by (simp add: string_of_byte_def is_ascii_def Let_def)

lemma token_length_high:
  assumes enc: "EncryptCC L e cc = Inr tk"
    and v: "GetTokenizationVersion (versioner e) = Inr v" "\<not> is_ascii v"
    and ascii: "ascii_alphabets (alphaProvider e)"
  shows "length tk = length cc + 1"
proof -
  from enc obtain v' ciphertext tkmd where
    valid: "isValidCC cc" and v': "GetTokenizationVersion (versioner e) = Inr v'"
    and ctlen: "length ciphertext = length cc - 10"
    and tkmd: "encodeTkMD ciphertext (alphaProvider e) = Inr tkmd"
    and tk: "tk = take 6 cc @ string_of_byte v' @ tkmd @ drop (length cc - 4) cc"
    by (rule EncryptCC_Inr)
  from v v' have "v' = v" by simp
  with v(2) have two: "length (string_of_byte v') = 2" by (simp add: string_of_byte_high)
  from valid have len: "13 \<le> length cc" by (simp add: isValidCC_def)
  from encodeTkMD_length [OF tkmd ascii] ctlen have "length tkmd = length cc - 11" by simp
  with len two show ?thesis by (simp add: tk)
qed

lemma high_version_EncryptCC:
  "EncryptCC stand_in high_version_engine ''4444333322221111'' = Inr high_version_token"
  by (simp add: EncryptCC_def engine_eval codec_eval high_version_token_def)

lemma high_version_DecryptTK:
  "DecryptTK stand_in high_version_engine high_version_token = Inl InvalidTK"
  by (simp add: DecryptTK_def engine_eval codec_eval token_eval high_version_token_def)

lemma high_version_providers:
  "GetTokenizationVersion (versioner high_version_engine) = Inr (CHR 0xC8)"
  "GetDetokenizationVersions (versioner high_version_engine) = Inr [CHR 0xC8]"
  by (simp_all add: high_version_engine_def deterministicVersioner_def)

text \<open>
  Claim C7 says that the token has the length of the card. With the version byte
  \<open>0xC8\<close> \<open>EncryptCC\<close> succeeds on the 16-digit card and returns a token of 17 bytes.
\<close>

theorem token_length_at_high_version:
  "isValidCC ''4444333322221111'' \<and> length ''4444333322221111'' = 16 \<and>
   EncryptCC stand_in high_version_engine ''4444333322221111'' = Inr high_version_token \<and>
   length high_version_token = 17"
  by (simp add: high_version_EncryptCC) (simp add: isValidCC_def is_digit_def high_version_token_def)

text \<open>
  Claim C8 says that the token keeps the first 6 and the last 4 characters of the card and
  that its 7th character is the version byte. With the version byte \<open>0xC8\<close> the first 6
  and the last 4 bytes are kept, and the 7th byte of the token is \<open>0xC3\<close>.
\<close>

theorem seventh_byte_at_high_version:
  "GetTokenizationVersion (versioner high_version_engine) = Inr (CHR 0xC8) \<and>
   EncryptCC stand_in high_version_engine ''4444333322221111'' = Inr high_version_token \<and>
   take 6 high_version_token = take 6 ''4444333322221111'' \<and>
   drop (length high_version_token - 4) high_version_token = ''1111'' \<and>
   high_version_token ! 6 = CHR 0xC3 \<and> high_version_token ! 6 \<noteq> CHR 0xC8"
  by (simp add: high_version_EncryptCC high_version_providers)
     (simp add: high_version_token_def)

text \<open>
  Claim C1 says that \<open>DecryptTK\<close> returns the card for every token that \<open>EncryptCC\<close>
  returned, as long as the version is among the detokenization versions. With the version
  byte \<open>0xC8\<close>, which is among them, the token that \<open>EncryptCC\<close> returns is rejected by
  \<open>DecryptTK\<close> with "Invalid TK format".
\<close>

theorem no_round_trip_at_high_version:
  "GetTokenizationVersion (versioner high_version_engine) = Inr (CHR 0xC8) \<and>
   GetDetokenizationVersions (versioner high_version_engine) = Inr [CHR 0xC8] \<and>
   EncryptCC stand_in high_version_engine ''4444333322221111'' = Inr high_version_token \<and>
   DecryptTK stand_in high_version_engine high_version_token = Inl InvalidTK"
  by (simp add: high_version_EncryptCC high_version_DecryptTK high_version_providers)

end
